theory Spec2Isabelle
  imports Main
begin

section \<open>Text and characters\<close>

text \<open>
  A Python \<open>str\<close> is modelled as a \<open>string\<close>, one \<open>char\<close> per code point, so the
  model covers text whose code points lie in U+0000..U+00FF. The character classes below
  are those of Python 3 (\<open>str.isspace\<close>, \<open>str.splitlines\<close>, and the \<open>re\<close> classes
  for \<open>str\<close> patterns) on that range.
\<close>

definition DEFAULT_NA :: string where
  "DEFAULT_NA = ''#N/A''"

definition LF :: char where
  "LF = CHR 0x0A"

definition CR :: char where
  "CR = CHR 0x0D"

definition TAB :: char where
  "TAB = CHR 0x09"

definition is_digit :: "char \<Rightarrow> bool" where
  \<comment> \<open>\<open>\d\<close>\<close>
  "is_digit c = (c \<in> set ''0123456789'')"

definition is_ascii_letter :: "char \<Rightarrow> bool" where
  \<comment> \<open>\<open>[A-Za-z]\<close>\<close>
  "is_ascii_letter c =
     (c \<in> set ''ABCDEFGHIJKLMNOPQRSTUVWXYZabcdefghijklmnopqrstuvwxyz'')"

definition is_space :: "char \<Rightarrow> bool" where
  \<comment> \<open>\<open>str.isspace\<close> and \<open>\s\<close>: TAB, LF, VT, FF, CR, FS, GS, RS, US, space, NEL, NBSP\<close>
  "is_space c =
     (c \<in> set [CHR 0x09, CHR 0x0A, CHR 0x0B, CHR 0x0C, CHR 0x0D, CHR 0x1C, CHR 0x1D,
                CHR 0x1E, CHR 0x1F, CHR 0x20, CHR 0x85, CHR 0xA0])"

definition is_linebreak :: "char \<Rightarrow> bool" where
  \<comment> \<open>the line boundaries of \<open>str.splitlines\<close>: LF, VT, FF, CR, FS, GS, RS, NEL\<close>
  "is_linebreak c =
     (c \<in> set [CHR 0x0A, CHR 0x0B, CHR 0x0C, CHR 0x0D, CHR 0x1C, CHR 0x1D, CHR 0x1E,
                CHR 0x85])"

definition is_word :: "char \<Rightarrow> bool" where
  \<comment> \<open>\<open>\w\<close>: alphanumeric (\<open>str.isalnum\<close>) or underscore\<close>
  "is_word c =
     (is_digit c \<or> is_ascii_letter c \<or> c = CHR ''_''
      \<or> c \<in> set [CHR 0xAA, CHR 0xB2, CHR 0xB3, CHR 0xB5, CHR 0xB9, CHR 0xBA, CHR 0xBC,
                   CHR 0xBD, CHR 0xBE]
      \<or> (0xC0 \<le> (of_char c :: nat) \<and> of_char c \<noteq> (0xD7 :: nat)
          \<and> of_char c \<noteq> (0xF7 :: nat)))"

definition lower_char :: "char \<Rightarrow> char" where
  \<comment> \<open>\<open>str.lower\<close> on one character: A-Z and the capitals U+00C0..U+00DE but U+00D7\<close>
  "lower_char c =
     (let n = (of_char c :: nat)
      in if (0x41 \<le> n \<and> n \<le> 0x5A) \<or> (0xC0 \<le> n \<and> n \<le> 0xDE \<and> n \<noteq> 0xD7)
         then char_of (n + 0x20) else c)"

definition lower :: "string \<Rightarrow> string" where
  "lower s = map lower_char s"

definition strip_chars :: "(char \<Rightarrow> bool) \<Rightarrow> string \<Rightarrow> string" where
  \<comment> \<open>\<open>s.strip(chars)\<close>: drop the characters of the class at both ends\<close>
  "strip_chars P s = rev (dropWhile P (rev (dropWhile P s)))"

definition strip :: "string \<Rightarrow> string" where
  \<comment> \<open>\<open>s.strip()\<close>\<close>
  "strip s = strip_chars is_space s"

fun splitlines_from :: "string \<Rightarrow> string \<Rightarrow> string list" where
  \<comment> \<open>the first argument is the current line so far, reversed\<close>
  "splitlines_from acc [] = (if acc = [] then [] else [rev acc])"
| "splitlines_from acc (c # cs) =
     (if c = CR then
        (case cs of
           [] \<Rightarrow> [rev acc]
         | d # ds \<Rightarrow> if d = LF then rev acc # splitlines_from [] ds
                    else rev acc # splitlines_from [] cs)
      else if is_linebreak c then rev acc # splitlines_from [] cs
      else splitlines_from (c # acc) cs)"

definition splitlines :: "string \<Rightarrow> string list" where
  \<comment> \<open>\<open>s.splitlines()\<close>: CR LF is one boundary; no empty last line\<close>
  "splitlines s = splitlines_from [] s"

fun split_from :: "string \<Rightarrow> string \<Rightarrow> string list" where
  "split_from acc [] = (if acc = [] then [] else [rev acc])"
| "split_from acc (c # cs) =
     (if is_space c then (if acc = [] then split_from [] cs else rev acc # split_from [] cs)
      else split_from (c # acc) cs)"

definition split_ws :: "string \<Rightarrow> string list" where
  \<comment> \<open>\<open>s.split()\<close>: the maximal runs of non-whitespace\<close>
  "split_ws s = split_from [] s"

fun join :: "string \<Rightarrow> string list \<Rightarrow> string" where
  \<comment> \<open>\<open>sep.join(xs)\<close>\<close>
  "join sep [] = []"
| "join sep [x] = x"
| "join sep (x # y # ys) = x @ sep @ join sep (y # ys)"

definition starts_with :: "string \<Rightarrow> string \<Rightarrow> bool" where
  "starts_with p s = (take (length p) s = p)"

fun contains :: "string \<Rightarrow> string \<Rightarrow> bool" where
  \<comment> \<open>\<open>sub in s\<close>\<close>
  "contains sub [] = (sub = [])"
| "contains sub (c # cs) = (starts_with sub (c # cs) \<or> contains sub cs)"

fun split_at_first :: "char \<Rightarrow> string \<Rightarrow> string" where
  \<comment> \<open>\<open>s.split(c)[0]\<close>: the part before the first \<open>c\<close>, all of \<open>s\<close> without one\<close>
  "split_at_first c s = takeWhile (\<lambda>x. x \<noteq> c) s"

definition last_n :: "nat \<Rightarrow> 'a list \<Rightarrow> 'a list" where
  \<comment> \<open>\<open>xs[-n:]\<close> for \<open>n > 0\<close>\<close>
  "last_n n xs = drop (length xs - n) xs"

section \<open>Mobile number (import_cvs.py, clean_mobile_number)\<close>

definition clean_mobile_number :: "string \<Rightarrow> string" where
  "clean_mobile_number raw_number =
     (if raw_number = DEFAULT_NA then DEFAULT_NA
      else
        let digits = filter is_digit raw_number;
            digits = (if length digits > 10 then last_n 10 digits else digits)
        in if length digits = 10 then digits else DEFAULT_NA)"

section \<open>Pattern search\<close>

text \<open>
  \<open>re.search\<close> tries the pattern at every position from left to right. A position is
  given by the character before it (if any) and the rest of the text, which is what the
  word boundary \<open>\b\<close> looks at.
\<close>

definition boundary :: "char option \<Rightarrow> string \<Rightarrow> bool" where
  \<comment> \<open>\<open>\b\<close>: exactly one of the neighbours is a word character\<close>
  "boundary prev s =
     ((case prev of None \<Rightarrow> False | Some p \<Rightarrow> is_word p)
      \<noteq> (case s of [] \<Rightarrow> False | c # _ \<Rightarrow> is_word c))"

definition match_lit :: "bool \<Rightarrow> string \<Rightarrow> string \<Rightarrow> (char \<times> string) option" where
  \<comment> \<open>a non-empty literal at the start of the text, ignoring case if the flag is set:
      the last character matched and the rest\<close>
  "match_lit ic lit s =
     (let m = take (length lit) s
      in if lit \<noteq> [] \<and> length lit \<le> length s
            \<and> (if ic then lower m = lower lit else m = lit)
         then Some (last m, drop (length lit) s) else None)"

definition word_alt_at :: "bool \<Rightarrow> bool \<Rightarrow> string list \<Rightarrow> char option \<Rightarrow> string \<Rightarrow> bool" where
  \<comment> \<open>\<open>\b(a1|a2|...)\b\<close> at a position, or \<open>\b(a1|a2|...)\.?\b\<close> when \<open>dot\<close> is set; the
      optional dot is tried first, then the match without it\<close>
  "word_alt_at ic dot alts prev s =
     (boundary prev s \<and>
      list_ex (\<lambda>lit.
        case match_lit ic lit s of
          None \<Rightarrow> False
        | Some (l, rest) \<Rightarrow>
            (dot \<and> (case rest of [] \<Rightarrow> False
                              | c # r \<Rightarrow> c = CHR ''.'' \<and> boundary (Some c) r))
            \<or> boundary (Some l) rest) alts)"

fun search_from :: "(char option \<Rightarrow> string \<Rightarrow> bool) \<Rightarrow> char option \<Rightarrow> string \<Rightarrow> bool" where
  "search_from m prev [] = m prev []"
| "search_from m prev (c # cs) = (m prev (c # cs) \<or> search_from m (Some c) cs)"

definition re_search :: "(char option \<Rightarrow> string \<Rightarrow> bool) \<Rightarrow> string \<Rightarrow> bool" where
  "re_search m s = search_from m None s"

section \<open>Gender detection\<close>

text \<open>
  The name lists come from \<open>gender_names.json\<close>, read when the module is loaded; they
  are a parameter of both scorers.
\<close>

record name_db =
  male :: "string list"
  female :: "string list"

subsection \<open>import_cvs.py, detect_gender\<close>

definition MALE_NAMES :: "name_db \<Rightarrow> string set" where
  "MALE_NAMES db = set (male db)"

definition FEMALE_NAMES :: "name_db \<Rightarrow> string set" where
  "FEMALE_NAMES db = set (female db)"

fun name_parts_score :: "name_db \<Rightarrow> string list \<Rightarrow> nat \<times> nat \<Rightarrow> nat \<times> nat" where
  \<comment> \<open>the loop over \<open>extracted_name.split()\<close>\<close>
  "name_parts_score db [] (m, f) = (m, f)"
| "name_parts_score db (part # parts) (m, f) =
     (let part_lower = lower part;
          m = (if part_lower \<in> MALE_NAMES db then m + 5 else m);
          f = (if part_lower \<in> FEMALE_NAMES db then f + 5 else f)
      in name_parts_score db parts (m, f))"

definition gender_scores :: "name_db \<Rightarrow> string \<Rightarrow> string \<Rightarrow> string option \<Rightarrow> string \<Rightarrow> nat \<times> nat" where
  \<comment> \<open>\<open>(male_score, female_score)\<close> before the decision\<close>
  "gender_scores db text extracted_name llm_gender email =
     (let male_score = 0; female_score = 0;
          text_lower = lower text;
          male_score = (if list_ex (\<lambda>w. contains w text_lower) ['' he '', '' him '', '' his '']
                        then male_score + 2 else male_score);
          female_score = (if list_ex (\<lambda>w. contains w text_lower) ['' she '', '' her '', '' hers '']
                          then female_score + 2 else female_score);
          male_score = (if re_search (word_alt_at True True [''Mr'']) text
                        then male_score + 1 else male_score);
          female_score = (if re_search (word_alt_at True True [''Ms'', ''Mrs'', ''Miss'']) text
                          then female_score + 1 else female_score);
          (male_score, female_score) =
            (case llm_gender of
               None \<Rightarrow> (male_score, female_score)
             | Some g \<Rightarrow>
                 if g = DEFAULT_NA then (male_score, female_score)
                 else if lower g = ''male'' then (male_score + 3, female_score)
                 else if lower g = ''female'' then (male_score, female_score + 3)
                 else (male_score, female_score));
          (male_score, female_score) =
            (if extracted_name \<noteq> DEFAULT_NA
             then name_parts_score db (split_ws extracted_name) (male_score, female_score)
             else (male_score, female_score))
      in if email \<noteq> DEFAULT_NA then
           let first_email_name =
                 lower (split_at_first (CHR ''.'') (split_at_first (CHR ''@'') email))
           in (if first_email_name \<in> MALE_NAMES db then male_score + 2 else male_score,
               if first_email_name \<in> FEMALE_NAMES db then female_score + 2 else female_score)
         else (male_score, female_score))"

definition detect_gender :: "name_db \<Rightarrow> string \<Rightarrow> string \<Rightarrow> string option \<Rightarrow> string \<Rightarrow> string" where
  "detect_gender db text extracted_name llm_gender email =
     (let (male_score, female_score) = gender_scores db text extracted_name llm_gender email
      in if male_score = 0 \<and> female_score = 0 then DEFAULT_NA
         else if male_score \<ge> female_score then ''Male'' else ''Female'')"

subsection \<open>llm_utils.py, detect_gender\<close>

definition check_name :: "name_db \<Rightarrow> string \<Rightarrow> nat \<Rightarrow> nat \<times> nat \<Rightarrow> nat \<times> nat" where
  "check_name db n weight sc =
     (case sc of (male_score, female_score) \<Rightarrow>
        if lower n \<in> set (map lower (male db)) then (male_score + weight, female_score)
        else if lower n \<in> set (map lower (female db)) then (male_score, female_score + weight)
        else (male_score, female_score))"

definition llm_gender_scores :: "name_db \<Rightarrow> string \<Rightarrow> string \<Rightarrow> string \<Rightarrow> nat \<times> nat" where
  "llm_gender_scores db name text email =
     (let sc = (0, 0);
          sc = (if name \<noteq> [] then fold (\<lambda>part. check_name db part 5) (split_ws name) sc
                else sc);
          sc = (if email \<noteq> [] \<and> CHR ''@'' \<in> set email
                then check_name db
                       (split_at_first (CHR ''.'') (split_at_first (CHR ''@'') email)) 2 sc
                else sc);
          text_lower = lower text;
          sc = (if re_search (word_alt_at False False [''he'', ''him'', ''his'']) text_lower
                then (fst sc + 3, snd sc) else sc)
      in if re_search (word_alt_at False False [''she'', ''her'', ''hers'']) text_lower
         then (fst sc, snd sc + 3) else sc)"

definition llm_detect_gender :: "name_db \<Rightarrow> string \<Rightarrow> string \<Rightarrow> string \<Rightarrow> string" where
  "llm_detect_gender db name text email =
     (let (male_score, female_score) = llm_gender_scores db name text email
      in if male_score > female_score then ''Male''
         else if female_score > male_score then ''Female''
         else DEFAULT_NA)"

definition no_names :: name_db where
  \<comment> \<open>an empty names file\<close>
  "no_names = \<lparr>male = [], female = []\<rparr>"

definition sample_names :: name_db where
  "sample_names = \<lparr>male = [''rahul'', ''kiran''], female = [''asha'', ''kiran'']\<rparr>"

section \<open>Scan detection (extractors/pdf_utils.py, is_scanned_pdf_bytes)\<close>

text \<open>
  The converter is outside the program. What it hands over is modelled as data: opening
  the document either raises or gives the pages, and \<open>page.get_text\<close> on each page
  gives a text, gives \<open>None\<close>, or raises.
\<close>

datatype page = Page_text string | Page_none | Page_raises

definition MIN_CHARS :: nat where
  \<comment> \<open>the default of the parameter \<open>min_chars\<close>\<close>
  "MIN_CHARS = 200"

definition page_text :: "page \<Rightarrow> string" where
  \<comment> \<open>\<open>txt = page.get_text("text") or ""\<close>, for a page that can be read\<close>
  "page_text p = (case p of Page_text txt \<Rightarrow> txt | _ \<Rightarrow> [])"

definition page_chars :: "page \<Rightarrow> nat" where
  \<comment> \<open>\<open>len(re.sub(r"\s+", "", txt))\<close>\<close>
  "page_chars p = length (filter (\<lambda>c. \<not> is_space c) (page_text p))"

fun scan_pages :: "nat \<Rightarrow> nat \<Rightarrow> page list \<Rightarrow> bool \<times> nat" where
  \<comment> \<open>the loop over the pages, from the running count \<open>text_chars\<close>: the result and the
      number of pages read\<close>
  "scan_pages min_chars text_chars [] = (True, 0)"
| "scan_pages min_chars text_chars (p # ps) =
     (if p = Page_raises then (True, 1)
      else
        let text_chars = text_chars + page_chars p
        in if text_chars \<ge> min_chars then (False, 1)
           else (case scan_pages min_chars text_chars ps of (r, k) \<Rightarrow> (r, k + 1)))"

definition is_scanned_pdf_bytes :: "page list option \<Rightarrow> nat \<Rightarrow> bool" where
  \<comment> \<open>\<open>None\<close>: \<open>fitz.open\<close> raises\<close>
  "is_scanned_pdf_bytes doc min_chars =
     (case doc of None \<Rightarrow> True | Some pages \<Rightarrow> fst (scan_pages min_chars 0 pages))"

definition pages_read :: "page list option \<Rightarrow> nat \<Rightarrow> nat" where
  "pages_read doc min_chars =
     (case doc of None \<Rightarrow> 0 | Some pages \<Rightarrow> snd (scan_pages min_chars 0 pages))"

abbreviation non_whitespace :: "page list \<Rightarrow> nat" where
  \<comment> \<open>the characters of a run of pages that are not whitespace, counted on the texts\<close>
  "non_whitespace ps \<equiv> sum_list (map (\<lambda>p. length (filter (\<lambda>c. \<not> is_space c) (page_text p))) ps)"

definition sparse_pages :: "page list" where
  \<comment> \<open>a page of 250 characters of which 100 are spaces, tabs and line feeds, and a page
      without text\<close>
  "sparse_pages =
     [Page_text (replicate 150 (CHR ''x'') @ replicate 60 (CHR '' '') @ replicate 20 TAB
                 @ replicate 20 LF),
      Page_none]"

section \<open>Location resolution (import_cvs.py, find_location_id)\<close>

text \<open>
  The location store is outside the program and is a parameter. \<open>engine.begin()\<close>
  opens a connection and a transaction before any input is looked at, and raises if the
  store cannot be reached; leaving the \<open>with\<close> block, by a \<open>return\<close> or at its
  end, commits the transaction, which can raise too. For each of the three SQL queries
  the store says what \<open>fetchone\<close> gives for the bound values, with the selected
  \<open>id\<close> already as the string \<open>str(row[0])\<close>. A value of the record passed in is a
  string or \<open>None\<close>.
\<close>

datatype error = AttributeError | DatabaseError

datatype fetched = Db_raises | No_row | Row string

record location_store =
  connects :: bool
  commits :: bool
  by_city_state :: "string \<Rightarrow> string \<Rightarrow> fetched"
  by_area_city :: "string \<Rightarrow> string \<Rightarrow> fetched"
  by_free_text :: "string option \<Rightarrow> fetched"

definition strip_opt :: "string option \<Rightarrow> error + string" where
  \<comment> \<open>\<open>v.strip()\<close>: \<open>None\<close> has no such method\<close>
  "strip_opt v = (case v of None \<Rightarrow> Inl AttributeError | Some s \<Rightarrow> Inr (strip s))"

definition free_text_step :: "location_store \<Rightarrow> string option \<Rightarrow> error + string" where
  "free_text_step store free_text_location =
     (if free_text_location \<noteq> Some DEFAULT_NA then
        (case by_free_text store free_text_location of
           Db_raises \<Rightarrow> Inl DatabaseError
         | Row r \<Rightarrow> Inr r
         | No_row \<Rightarrow> Inr DEFAULT_NA)
      else Inr DEFAULT_NA)"

definition area_city_step :: "location_store \<Rightarrow> string option \<Rightarrow> string option \<Rightarrow> string option \<Rightarrow> error + string" where
  "area_city_step store area city free_text_location =
     (if area \<noteq> Some DEFAULT_NA \<and> city \<noteq> Some DEFAULT_NA then
        (case strip_opt area of
           Inl e \<Rightarrow> Inl e
         | Inr a \<Rightarrow>
             (case strip_opt city of
                Inl e \<Rightarrow> Inl e
              | Inr c \<Rightarrow>
                  (case by_area_city store a c of
                     Db_raises \<Rightarrow> Inl DatabaseError
                   | Row r \<Rightarrow> Inr r
                   | No_row \<Rightarrow> free_text_step store free_text_location)))
      else free_text_step store free_text_location)"

definition city_state_step :: "location_store \<Rightarrow> string option \<Rightarrow> string option \<Rightarrow> string option \<Rightarrow> string option \<Rightarrow> error + string" where
  "city_state_step store area city state free_text_location =
     (if city \<noteq> Some DEFAULT_NA \<and> state \<noteq> Some DEFAULT_NA then
        (case strip_opt city of
           Inl e \<Rightarrow> Inl e
         | Inr c \<Rightarrow>
             (case strip_opt state of
                Inl e \<Rightarrow> Inl e
              | Inr s \<Rightarrow>
                  (case by_city_state store c s of
                     Db_raises \<Rightarrow> Inl DatabaseError
                   | Row r \<Rightarrow> Inr r
                   | No_row \<Rightarrow> area_city_step store area city free_text_location)))
      else area_city_step store area city free_text_location)"

definition find_location_id :: "location_store \<Rightarrow> string option \<Rightarrow> string option \<Rightarrow> string option \<Rightarrow> string option \<Rightarrow> error + string" where
  \<comment> \<open>the three steps run inside \<open>with engine.begin() as conn:\<close>\<close>
  "find_location_id store area city state free_text_location =
     (if \<not> connects store then Inl DatabaseError
      else
        (case city_state_step store area city state free_text_location of
           Inl e \<Rightarrow> Inl e
         | Inr r \<Rightarrow> if commits store then Inr r else Inl DatabaseError))"

definition sample_store :: location_store where
  \<comment> \<open>a store that can be reached, in which Pune, Maharashtra is row 7, Baner in Pune is
      row 9, and a free text naming Pune gives row 7\<close>
  "sample_store =
     \<lparr>connects = True, commits = True,
      by_city_state = (\<lambda>c s. if lower c = ''pune'' \<and> lower s = ''maharashtra''
                              then Row ''7'' else No_row),
      by_area_city = (\<lambda>a c. if lower a = ''baner'' \<and> lower c = ''pune''
                             then Row ''9'' else No_row),
      by_free_text = (\<lambda>t. case t of None \<Rightarrow> No_row
                                   | Some s \<Rightarrow> if contains ''Pune'' s then Row ''7'' else No_row)\<rparr>"


subsection \<open>The fallback chain as the specification words it\<close>




section \<open>Pattern matches in order (\<open>findall\<close>, \<open>finditer\<close>)\<close>

text \<open>
  A pattern is given by what it matches at one position: the length of the match there,
  if there is one. The scan goes from left to right and continues behind each match, so
  the matches do not overlap. None of the patterns below matches the empty string.
\<close>

type_synonym matcher = "char option \<Rightarrow> string \<Rightarrow> nat option"

function findall_from :: "matcher \<Rightarrow> char option \<Rightarrow> string \<Rightarrow> string list" where
  "findall_from m prev [] = []"
| "findall_from m prev (c # cs) =
     (case m prev (c # cs) of
        None \<Rightarrow> findall_from m (Some c) cs
      | Some n \<Rightarrow>
          if n = 0 then findall_from m (Some c) cs
          else take n (c # cs)
               # findall_from m (Some (last (take n (c # cs)))) (drop n (c # cs)))"
  by pat_completeness auto
termination
  by (relation "measure (\<lambda>(m, prev, s). length s)") auto

definition findall :: "matcher \<Rightarrow> string \<Rightarrow> string list" where
  "findall m s = findall_from m None s"

subsection \<open>The e-mail pattern\<close>

definition is_local_char :: "char \<Rightarrow> bool" where
  \<comment> \<open>\<open>[A-Za-z0-9._%+-]\<close>\<close>
  "is_local_char c = (is_ascii_letter c \<or> is_digit c \<or> c \<in> set ''._%+-'')"

definition is_domain_char :: "char \<Rightarrow> bool" where
  \<comment> \<open>\<open>[A-Za-z0-9.-]\<close>\<close>
  "is_domain_char c = (is_ascii_letter c \<or> is_digit c \<or> c \<in> set ''.-'')"

definition tld_at :: "string \<Rightarrow> nat option" where
  \<comment> \<open>\<open>\.[A-Za-z]{2,}\<close> at the start of the text: the number of letters taken\<close>
  "tld_at r =
     (case r of
        [] \<Rightarrow> None
      | c # r' \<Rightarrow>
          if c = CHR ''.'' \<and> length (takeWhile is_ascii_letter r') \<ge> 2
          then Some (length (takeWhile is_ascii_letter r')) else None)"

fun try_domain :: "nat \<Rightarrow> string \<Rightarrow> (nat \<times> nat) option" where
  \<comment> \<open>\<open>[A-Za-z0-9.-]+\<close> is greedy and gives characters back one at a time until the rest
      of the pattern matches: the lengths of the domain part and of the letters\<close>
  "try_domain 0 r = None"
| "try_domain (Suc k) r =
     (case tld_at (drop (Suc k) r) of
        Some t \<Rightarrow> Some (Suc k, t)
      | None \<Rightarrow> try_domain k r)"

definition email_at :: matcher where
  \<comment> \<open>\<open>[A-Za-z0-9._%+-]+@[A-Za-z0-9.-]+\.[A-Za-z]{2,}\<close>. The local part is the longest run
      of its class: a shorter one is followed by a character of the class, not by \<open>@\<close>.\<close>
  "email_at prev s =
     (let local = takeWhile is_local_char s;
          r = dropWhile is_local_char s
      in if local = [] then None
         else (case r of
                 [] \<Rightarrow> None
               | c # r' \<Rightarrow>
                   if c \<noteq> CHR ''@'' then None
                   else (case try_domain (length (takeWhile is_domain_char r')) r' of
                           None \<Rightarrow> None
                         | Some (k, t) \<Rightarrow> Some (length local + 1 + k + 1 + t))))"

subsection \<open>extractors/entities.py, extract_emails\<close>

definition extract_emails :: "string \<Rightarrow> string list" where
  \<comment> \<open>\<open>[m.group(0).lower().strip(" ,;") for m in EMAIL_RE.finditer(text)]\<close>\<close>
  "extract_emails text =
     map (\<lambda>m. strip_chars (\<lambda>c. c \<in> set '' ,;'') (lower m)) (findall email_at text)"

subsection \<open>The phone and pincode patterns of import_cvs.py\<close>

definition mobile_at :: "string \<Rightarrow> nat option" where
  \<comment> \<open>\<open>[6-9]\d{9}\<close>\<close>
  "mobile_at s =
     (case s of
        [] \<Rightarrow> None
      | c # cs \<Rightarrow>
          if c \<in> set ''6789'' \<and> length cs \<ge> 9 \<and> list_all is_digit (take 9 cs)
          then Some 10 else None)"

definition phone_at :: matcher where
  \<comment> \<open>\<open>(?:\+91[-\s]?)?[6-9]\d{9}\<close>: with the prefix and a separator, then with the prefix
      alone, then without the prefix\<close>
  "phone_at prev s =
     (if starts_with ''+91'' s then
        (let r = drop 3 s;
             with_sep = (case r of
                           [] \<Rightarrow> None
                         | c # r' \<Rightarrow> if c = CHR ''-'' \<or> is_space c
                                     then map_option (\<lambda>n. 4 + n) (mobile_at r') else None)
         in case with_sep of
              Some n \<Rightarrow> Some n
            | None \<Rightarrow> (case mobile_at r of
                          Some n \<Rightarrow> Some (3 + n)
                        | None \<Rightarrow> mobile_at s))
      else mobile_at s)"

definition pincode_at :: matcher where
  \<comment> \<open>\<open>\b[1-9]\d{5}\b\<close>\<close>
  "pincode_at prev s =
     (case s of
        [] \<Rightarrow> None
      | c # cs \<Rightarrow>
          if boundary prev s \<and> c \<in> set ''123456789'' \<and> length cs \<ge> 5
             \<and> list_all is_digit (take 5 cs) \<and> boundary (Some (last (take 6 s))) (drop 6 s)
          then Some 6 else None)"

section \<open>Records of fields\<close>

text \<open>
  The model's answer is JSON. A value of it is modelled as \<open>None\<close>, a string, or a list
  whose items are \<open>None\<close> or strings; a dict is a map from keys to such values.
\<close>

datatype pyval = PNone | PStr string | PList "string option list"

type_synonym dict = "string \<rightharpoonup> pyval"

definition NA :: pyval where
  "NA = PStr DEFAULT_NA"

definition get_or :: "dict \<Rightarrow> string \<Rightarrow> pyval \<Rightarrow> pyval" where
  \<comment> \<open>\<open>d.get(k, default)\<close>\<close>
  "get_or d k dflt = (case d k of None \<Rightarrow> dflt | Some v \<Rightarrow> v)"

definition truthy :: "pyval \<Rightarrow> bool" where
  "truthy v = (case v of PNone \<Rightarrow> False | PStr s \<Rightarrow> s \<noteq> [] | PList l \<Rightarrow> l \<noteq> [])"

definition get_truthy_or :: "dict \<Rightarrow> string \<Rightarrow> pyval \<Rightarrow> pyval" where
  \<comment> \<open>\<open>d.get(k) or default\<close>\<close>
  "get_truthy_or d k dflt = (if truthy (get_or d k PNone) then get_or d k PNone else dflt)"

definition str_or_none :: "pyval \<Rightarrow> string option" where
  \<comment> \<open>a value where the code goes on to call a string method: anything but a string
      fails there as \<open>None\<close> does\<close>
  "str_or_none v = (case v of PStr s \<Rightarrow> Some s | _ \<Rightarrow> None)"

definition nonblank_lines :: "string \<Rightarrow> string list" where
  \<comment> \<open>\<open>[ln.strip() for ln in text.splitlines() if ln.strip()]\<close>\<close>
  "nonblank_lines text = filter (\<lambda>ln. ln \<noteq> []) (map strip (splitlines text))"

section \<open>The batch path (import_cvs.py)\<close>

definition ALL_COLUMNS :: "string list" where
  "ALL_COLUMNS =
     [''user_id'', ''username'', ''mobile_number'', ''email'', ''gender'',
      ''employed'', ''current_company'', ''current_designation'', ''destination'',
      ''work_experience'', ''current_location'', ''current_salary'',
      ''cv_username'', ''cv_mobile_number'', ''cv_gender'', ''cv_employed'',
      ''cv_current_company'', ''cv_sales_experience'',
      ''cv_work_experience'', ''cv_current_location'', ''cv_current_salary'', ''cv_jobrole'',
      ''cv_companyname'', ''cv_productscode'',
      ''cv_sub_productscode'', ''cv_departmentscode'', ''cv_sub_departmentscode'',
      ''cv_productspecializationcode'',
      ''cv_depatmentcategorycode'', ''cv_products_text'', ''cv_sub_products_text'',
      ''cv_specialization_text'',
      ''cv_departments_text'', ''cv_sub_departments_text'', ''cv_category_text'',
      ''cv_location_code'', ''cv_age'', ''cv_location_area'',
      ''cv_location_city'', ''cv_location_state'', ''cv_alternatephone'', ''cv_email'',
      ''cv_dateofbirth'', ''cv_preferredlocation'',
      ''cv_highestqualification'', ''cv_specialization'', ''cv_institutename'',
      ''cv_graduationyear'', ''cv_additionaldegrees'',
      ''cv_totalexperienceyears'', ''cv_currentcompany'', ''cv_currentdesignation'',
      ''cv_currentctc'', ''cv_expectedctc'',
      ''cv_noticeperiod'', ''cv_lastworkingday'', ''cv_pastcompanies'',
      ''cv_pastdesignations'', ''cv_pastduration'',
      ''cv_bfsisectorexperience'', ''cv_productexpertise'', ''cv_technicalskills'',
      ''cv_regulatoryknowledge'',
      ''cv_domainkeywords'', ''cv_teamhandlingexperienceyesno'', ''cv_achievements'',
      ''cv_revenuehandled'',
      ''cv_targetachievement'', ''cv_certifications'', ''cv_languagesknown'',
      ''cv_linkedinurl'', ''cv_cvscore'', ''cv_jobfitkeywords'',
      ''cv_possibleroles'', ''cv_relevantjdids'', ''cv_isleadershiprole'',
      ''cv_locationmatchscore'', ''cv_resumecompletenesscore'',
      ''cv_source'', ''cv_parsingstatus'', ''cv_parsingtimestamp'', ''cv_originalfilename'',
      ''cv_summary'', ''cv_pincode'']"

definition basic_regex_overrides :: "string \<Rightarrow> (string \<times> string) list" where
  \<comment> \<open>the dict returned, as its items in order\<close>
  "basic_regex_overrides text =
     (let email = findall email_at text;
          phone = findall phone_at text;
          pincode = findall pincode_at text;
          lines = nonblank_lines text
      in [(''cv_email'', if email \<noteq> [] then strip (hd email) else DEFAULT_NA),
          (''cv_mobile_number'',
             if phone \<noteq> [] then filter (\<lambda>c. \<not> (is_space c \<or> c = CHR ''-'')) (hd phone)
             else DEFAULT_NA),
          (''cv_pincode'', if pincode \<noteq> [] then hd pincode else DEFAULT_NA),
          (''cv_summary'',
             if lines \<noteq> [] then take 500 (join '' '' (take 4 lines)) else DEFAULT_NA)])"

definition flatten_value :: "pyval \<Rightarrow> pyval" where
  \<comment> \<open>a list value becomes the comma-separated string of its truthy items\<close>
  "flatten_value v =
     (case v of
        PList value \<Rightarrow>
          (let cleaned = concat (map (\<lambda>v. case v of None \<Rightarrow> []
                                              | Some s \<Rightarrow> if s \<noteq> [] then [s] else []) value)
           in if cleaned \<noteq> [] then PStr (join '', '' cleaned) else NA)
      | _ \<Rightarrow> v)"

definition flatten_lists :: "dict \<Rightarrow> dict" where
  \<comment> \<open>the loop over \<open>ai_data.items()\<close>\<close>
  "flatten_lists ai_data = (\<lambda>k. map_option flatten_value (ai_data k))"

fun apply_overrides :: "(string \<times> string) list \<Rightarrow> dict \<Rightarrow> dict" where
  \<comment> \<open>\<open>for k, v in overrides.items(): if v != DEFAULT_NA: ai_data[k] = v\<close>\<close>
  "apply_overrides [] ai_data = ai_data"
| "apply_overrides ((k, v) # kvs) ai_data =
     apply_overrides kvs (if v \<noteq> DEFAULT_NA then ai_data(k \<mapsto> PStr v) else ai_data)"

definition choose_username :: "dict \<Rightarrow> string list \<Rightarrow> string" where
  \<comment> \<open>lines 242 to 253 of import_cvs.py. The \<open>elif\<close> and the \<open>else\<close> stand at the
      indentation of the outer \<open>if\<close>, so they belong to it, not to \<open>if lines\<close>.\<close>
  "choose_username ai_data lines =
     (let username = (case get_truthy_or ai_data ''cv_username'' NA of
                        PStr s \<Rightarrow> s | _ \<Rightarrow> DEFAULT_NA)
      in if username = DEFAULT_NA \<or> strip username = [] then
           (if lines \<noteq> [] then hd lines else username)
         else if truthy (get_or ai_data ''cv_email'' PNone)
                 \<and> get_or ai_data ''cv_email'' PNone \<noteq> NA then
           (case get_or ai_data ''cv_email'' PNone of
              PStr e \<Rightarrow> split_at_first (CHR ''@'') e
            | _ \<Rightarrow> DEFAULT_NA)
         else DEFAULT_NA)"

fun ensure_past_fields :: "string list \<Rightarrow> dict \<Rightarrow> dict" where
  "ensure_past_fields [] ai_data = ai_data"
| "ensure_past_fields (key # keys) ai_data =
     ensure_past_fields keys
       (if ai_data key = None \<or> \<not> truthy (get_or ai_data key PNone) then ai_data(key \<mapsto> NA)
        else (case get_or ai_data key PNone of
                PList l \<Rightarrow> ai_data(key \<mapsto> flatten_value (PList l))
              | _ \<Rightarrow> ai_data))"

text \<open>
  What \<open>process_file\<close> takes from outside: the text of the file, the model's fields for
  it, the name of the file, the clock and the UUID, the location store and the name
  lists. \<open>calculate_age\<close> and \<open>calculate_cv_score\<close> read the clock and parse dates and
  floating-point numbers; their results are taken as given.
\<close>

record batch_env =
  text_data :: string
  model_fields :: dict
  file_name :: string
  timestamp :: string
  fresh_uuid :: string
  locations :: location_store
  names :: name_db
  calculate_age :: "dict \<Rightarrow> string"
  calculate_cv_score :: "dict \<Rightarrow> string"

definition file_metadata :: "batch_env \<Rightarrow> string \<Rightarrow> dict \<Rightarrow> dict" where
  \<comment> \<open>lines 230 to 241, with the location code that \<open>find_location_id\<close> returned\<close>
  "file_metadata env code ai_data =
     ai_data(''cv_location_code'' \<mapsto> PStr code,
             ''cv_parsingtimestamp'' \<mapsto> PStr (timestamp env),
             ''cv_source'' \<mapsto> PStr ''OCR_UPLOAD'',
             ''cv_parsingstatus'' \<mapsto> PStr ''PARSED'',
             ''user_id'' \<mapsto> PStr (fresh_uuid env))"

definition identity_fields :: "string \<Rightarrow> dict \<Rightarrow> dict" where
  \<comment> \<open>lines 255 to 260: \<open>username\<close>, \<open>mobile_number\<close> and \<open>email\<close>\<close>
  "identity_fields username ai_data =
     (let ai_data = ai_data(''username'' \<mapsto> PStr username);
          raw_mobile = (case get_truthy_or ai_data ''cv_mobile_number'' NA of
                          PStr s \<Rightarrow> s | _ \<Rightarrow> DEFAULT_NA);
          ai_data = ai_data(''mobile_number'' \<mapsto> PStr (clean_mobile_number raw_mobile))
      in ai_data(''email'' \<mapsto> get_truthy_or ai_data ''cv_email'' NA))"

definition derived_fields :: "batch_env \<Rightarrow> string \<Rightarrow> string \<Rightarrow> dict \<Rightarrow> dict" where
  \<comment> \<open>lines 263 to 276, for the e-mail string that \<open>detect_gender\<close> is given\<close>
  "derived_fields env username email ai_data =
     (let ai_data = ai_data(''gender'' \<mapsto>
            PStr (detect_gender (names env) (text_data env) username
                    (str_or_none (get_or ai_data ''cv_gender'' NA)) email));
          ai_data = ai_data(''cv_age'' \<mapsto> PStr (calculate_age env ai_data));
          ai_data = ai_data(''cv_cvscore'' \<mapsto> PStr (calculate_cv_score env ai_data))
      in ensure_past_fields
           [''cv_pastcompanies'', ''cv_pastdesignations'', ''cv_pastduration''] ai_data)"

definition existing_columns :: "string set \<Rightarrow> dict \<Rightarrow> dict" where
  \<comment> \<open>\<open>{k: ai_data.get(k, DEFAULT_NA) for k in ALL_COLUMNS if k in existing_cols}\<close>\<close>
  "existing_columns existing_cols ai_data =
     (\<lambda>k. if k \<in> set ALL_COLUMNS \<and> k \<in> existing_cols
          then Some (get_or ai_data k NA) else None)"

definition process_file :: "batch_env \<Rightarrow> string set \<Rightarrow> error + dict" where
  "process_file env existing_cols =
     (if strip (text_data env) = [] then Inr Map.empty
      else
        let ai_data = flatten_lists (model_fields env);
            ai_data = apply_overrides (basic_regex_overrides (text_data env)) ai_data;
            ai_data = ai_data(''cv_originalfilename'' \<mapsto> PStr (file_name env))
        in case find_location_id (locations env)
                  (str_or_none (get_or ai_data ''cv_location_area'' NA))
                  (str_or_none (get_or ai_data ''cv_location_city'' NA))
                  (str_or_none (get_or ai_data ''cv_location_state'' NA))
                  (str_or_none (get_or ai_data ''cv_current_location'' NA)) of
             Inl e \<Rightarrow> Inl e
           | Inr code \<Rightarrow>
               let ai_data = file_metadata env code ai_data;
                   lines = nonblank_lines (text_data env);
                   username = choose_username ai_data lines;
                   ai_data = identity_fields username ai_data
               in case str_or_none (get_or ai_data ''cv_email'' NA) of
                    None \<Rightarrow> Inl AttributeError
                  | Some email \<Rightarrow>
                      Inr (existing_columns existing_cols
                             (derived_fields env username email ai_data)))"

section \<open>The API path (app.py, upload_resume)\<close>

text \<open>
  The model call, the phone extractor (a phone-number library), the name extractor (a
  language model) and \<open>extract_finscore_from_text\<close> are outside the program; what they
  give is a parameter. The text is the normalised text of the upload.
\<close>

datatype llm_outcome = Llm_raises | Llm_returns "dict option"

definition mapping :: "(string \<times> string) list" where
  "mapping =
     [(''cv_username'', ''username''), (''cv_mobile_number'', ''mobile_number''),
      (''cv_gender'', ''gender''),
      (''cv_current_company'', ''current_company''), (''cv_jobrole'', ''jobrole''),
      (''cv_location_city'', ''current_location''), (''cv_current_salary'', ''current_salary''),
      (''cv_products_text'', ''products''), (''cv_sub_products_text'', ''sub_products''),
      (''cv_location_code'', ''location_code''), (''cv_age'', ''age'')]"

fun fill_from_llm :: "(string \<times> string) list \<Rightarrow> dict \<Rightarrow> dict \<Rightarrow> dict" where
  \<comment> \<open>\<open>for k, v in mapping.items(): val = llm_info.get(k); if val not in (None, ""):
      details[v] = val\<close>\<close>
  "fill_from_llm [] llm_info details = details"
| "fill_from_llm ((k, v) # kvs) llm_info details =
     (let val = get_or llm_info k PNone
      in fill_from_llm kvs llm_info
           (if val \<noteq> PNone \<and> val \<noteq> PStr [] then details(v \<mapsto> val) else details))"

record upload =
  resume_text :: string
  llm :: llm_outcome
  phones :: "string list"
  person_name :: "string option"
  filename :: string
  finscore_summary :: pyval

definition llm_info :: "llm_outcome \<Rightarrow> dict" where
  \<comment> \<open>\<open>extract_information_from_text(text) or {}\<close>, and \<open>{}\<close> when the call raises\<close>
  "llm_info out = (case out of Llm_returns (Some d) \<Rightarrow> d | _ \<Rightarrow> Map.empty)"

definition upload_resume :: "upload \<Rightarrow> dict" where
  \<comment> \<open>the dict \<open>details\<close> that is returned as \<open>extracted\<close>\<close>
  "upload_resume up =
     (let emails = extract_emails (resume_text up);
          details = fill_from_llm mapping (llm_info (llm up)) Map.empty;
          details = (if details ''mobile_number'' = None \<and> phones up \<noteq> []
                     then details(''mobile_number'' \<mapsto> PStr (hd (phones up))) else details);
          details = (case person_name up of
                       Some n \<Rightarrow> if details ''username'' = None \<and> n \<noteq> []
                                  then details(''username'' \<mapsto> PStr n) else details
                     | None \<Rightarrow> details);
          details = (if details ''username'' = None \<and> emails \<noteq> []
                     then details(''username'' \<mapsto> PStr (split_at_first (CHR ''@'') (hd emails)))
                     else details);
          details = details(''resume'' \<mapsto> PStr (''uploaded_'' @ filename up));
          details = details(''created'' \<mapsto> PNone)
      in details(''cv_summary'' \<mapsto> finscore_summary up))"


subsection \<open>Sample inputs\<close>

definition asha_env :: batch_env where
  \<comment> \<open>a file whose text is one e-mail address, for which the model gives only a name\<close>
  "asha_env =
     \<lparr>text_data = ''r.asha@x.com'',
      model_fields = [''cv_username'' \<mapsto> PStr ''Asha Rao''],
      file_name = ''cv.pdf'', timestamp = ''2025-01-01 00:00:00'', fresh_uuid = ''0'',
      locations = sample_store, names = no_names,
      calculate_age = (\<lambda>d. DEFAULT_NA), calculate_cv_score = (\<lambda>d. ''0'')\<rparr>"

definition override_env :: batch_env where
  \<comment> \<open>a file whose text holds one e-mail address, for which the model gives another\<close>
  "override_env =
     \<lparr>text_data = ''a@b.co'',
      model_fields = [''cv_email'' \<mapsto> PStr ''m@n.org''],
      file_name = ''cv.pdf'', timestamp = ''2025-01-01 00:00:00'', fresh_uuid = ''0'',
      locations = sample_store, names = no_names,
      calculate_age = (\<lambda>d. DEFAULT_NA), calculate_cv_score = (\<lambda>d. ''0'')\<rparr>"

definition phone_upload :: upload where
  \<comment> \<open>an upload for which the model gives one mobile number and the phone extractor
      another\<close>
  "phone_upload =
     \<lparr>resume_text = ''r.asha@x.com'',
      llm = Llm_returns (Some [''cv_username'' \<mapsto> PStr ''Asha Rao'',
                               ''cv_mobile_number'' \<mapsto> PStr ''9000000000'']),
      phones = [''+919876543210''], person_name = None, filename = ''cv.pdf'',
      finscore_summary = PNone\<rparr>"

section \<open>What the e-mail pattern describes\<close>




section \<open>Text normalisation (extractors/layout.py, normalize_text)\<close>

text \<open>
  The four \<open>re.sub\<close> calls are written as scans from left to right: a match is replaced
  and the scan goes on behind it, so that replaced text is never looked at again.
  \<open>unicodedata.normalize("NFKC", _)\<close> is a parameter of the model.
\<close>

fun crlf_to_lf :: "string \<Rightarrow> string" where
  \<comment> \<open>\<open>re.sub(r"\r\n", "\n", t)\<close>\<close>
  "crlf_to_lf (c # d # cs) =
     (if c = CR \<and> d = LF then LF # crlf_to_lf cs else c # crlf_to_lf (d # cs))"
| "crlf_to_lf cs = cs"

definition is_blank :: "char \<Rightarrow> bool" where
  \<comment> \<open>\<open>[ \t]\<close>\<close>
  "is_blank c = (c = CHR '' '' \<or> c = TAB)"

function squeeze_blanks :: "string \<Rightarrow> string" where
  \<comment> \<open>\<open>re.sub(r"[ \t]+", " ", t)\<close>\<close>
  "squeeze_blanks [] = []"
| "squeeze_blanks (c # cs) =
     (if is_blank c then CHR '' '' # squeeze_blanks (dropWhile is_blank cs)
      else c # squeeze_blanks cs)"
  by pat_completeness auto

termination
  by (relation "measure length") (auto simp: less_Suc_eq_le length_dropWhile_le)

fun join_hyphenated :: "string \<Rightarrow> string" where
  \<comment> \<open>\<open>re.sub(r"(\w)-\n(\w)", r"\1\2", t)\<close>: the second word character is part of
      the match, so it does not start the next one\<close>
  "join_hyphenated (a # b # c # d # cs) =
     (if is_word a \<and> b = CHR ''-'' \<and> c = LF \<and> is_word d
      then a # d # join_hyphenated cs
      else a # join_hyphenated (b # c # d # cs))"
| "join_hyphenated cs = cs"

function squeeze_newlines :: "string \<Rightarrow> string" where
  \<comment> \<open>\<open>re.sub(r"\n{3,}", "\n\n", t)\<close>: a run of three or more LF becomes two\<close>
  "squeeze_newlines [] = []"
| "squeeze_newlines (c # cs) =
     (if c = LF then
        (let n = length (takeWhile (\<lambda>x. x = LF) cs)
         in (if 2 \<le> n then [LF, LF] else replicate (Suc n) LF)
            @ squeeze_newlines (dropWhile (\<lambda>x. x = LF) cs))
      else c # squeeze_newlines cs)"
  by pat_completeness auto

termination
  by (relation "measure length") (auto simp: less_Suc_eq_le length_dropWhile_le)

definition substitutions :: "(string \<Rightarrow> string) \<Rightarrow> string \<Rightarrow> string" where
  \<comment> \<open>\<open>t\<close> after the NFKC step and the four \<open>re.sub\<close> calls\<close>
  "substitutions nfkc text =
     squeeze_newlines (join_hyphenated (squeeze_blanks (crlf_to_lf (nfkc text))))"

definition normalize_text :: "(string \<Rightarrow> string) \<Rightarrow> string \<Rightarrow> string" where
  "normalize_text nfkc text =
     (if text = [] then []
      else
        (let t = substitutions nfkc text;
             lines = nonblank_lines t;
             t = (if 6 < length lines then
                    (let head = take 2 lines;
                         tail = last_n 2 lines;
                         filtered = filter (\<lambda>ln. ln \<notin> set head \<and> ln \<notin> set tail) lines
                     in if filtered \<noteq> [] then join [LF] filtered else join [LF] lines)
                  else t)
         in strip t))"


section \<open>Properties\<close>

lemma DEFAULT_NA_no_digit: "filter is_digit DEFAULT_NA = []"
  by (simp add: DEFAULT_NA_def is_digit_def)

lemma last_n_length: "n \<le> length xs \<Longrightarrow> length (last_n n xs) = n"
  by (simp add: last_n_def)

lemma last_n_all: "length xs \<le> n \<Longrightarrow> last_n n xs = xs"
  by (simp add: last_n_def)

lemma last_n_subset: "set (last_n n xs) \<subseteq> set xs"
  unfolding last_n_def by (rule set_drop_subset)

lemma clean_mobile_number_cases:
  "clean_mobile_number raw =
     (if length (filter is_digit raw) \<ge> 10 then last_n 10 (filter is_digit raw) else DEFAULT_NA)"
proof (cases "raw = DEFAULT_NA")
  case True
  then show ?thesis
    using DEFAULT_NA_no_digit by (simp add: clean_mobile_number_def)
next
  case False
  then show ?thesis
    by (simp add: clean_mobile_number_def Let_def last_n_length last_n_all)
qed


text \<open>
  C5. For an input with at least 10 digit characters, \<open>clean_mobile_number\<close> returns
  exactly the last 10 digit characters of the input; with fewer than 10 it returns the
  sentinel; the result is always the sentinel or a string of exactly 10 digits.
\<close>

theorem clean_mobile_number_spec:
  "(length (filter is_digit raw) \<ge> 10 \<longrightarrow>
      clean_mobile_number raw = last_n 10 (filter is_digit raw))
   \<and> (length (filter is_digit raw) < 10 \<longrightarrow> clean_mobile_number raw = DEFAULT_NA)
   \<and> (clean_mobile_number raw = DEFAULT_NA
      \<or> (length (clean_mobile_number raw) = 10
          \<and> (\<forall>c \<in> set (clean_mobile_number raw). is_digit c)))"
proof (cases "length (filter is_digit raw) \<ge> 10")
  case True
  then have eq: "clean_mobile_number raw = last_n 10 (filter is_digit raw)"
    by (simp only: clean_mobile_number_cases if_True)
  have nl: "\<not> length (filter is_digit raw) < 10"
    using True by (simp only: not_less)
  have len: "length (last_n 10 (filter is_digit raw)) = 10"
    using True by (rule last_n_length)
  have dig: "\<forall>c \<in> set (last_n 10 (filter is_digit raw)). is_digit c"
    using last_n_subset [of 10 "filter is_digit raw"] by auto
  show ?thesis
    unfolding eq using nl len dig by blast
next
  case False
  then have eq: "clean_mobile_number raw = DEFAULT_NA"
    by (simp only: clean_mobile_number_cases if_False)
  show ?thesis
    unfolding eq using False by blast
qed

theorem clean_mobile_number_spec_witness:
  "clean_mobile_number ''+91 98765-43210'' = ''9876543210''
   \<and> clean_mobile_number ''12345'' = ''#N/A''"
  using clean_mobile_number_spec [of "''+91 98765-43210''"]
        clean_mobile_number_spec [of "''12345''"]
  by code_simp


subsection \<open>Gender resolution\<close>

text \<open>
  C3 (as amended). In the scorer of import_cvs.py two zero scores give the sentinel, a
  strictly greater score wins, and equal nonzero scores give Male. In the scorer of
  llm_utils.py a strictly greater score wins and equal scores, zero or not, give the
  sentinel.
\<close>

theorem gender_resolution:
  assumes "gender_scores db t n g e = (m, f)"
    and "llm_gender_scores db n' t' e' = (m', f')"
  shows "(m = 0 \<and> f = 0 \<longrightarrow> detect_gender db t n g e = DEFAULT_NA)
       \<and> (m > f \<longrightarrow> detect_gender db t n g e = ''Male'')
       \<and> (f > m \<longrightarrow> detect_gender db t n g e = ''Female'')
       \<and> (m = f \<and> m \<noteq> 0 \<longrightarrow> detect_gender db t n g e = ''Male'')
       \<and> (m' > f' \<longrightarrow> llm_detect_gender db n' t' e' = ''Male'')
       \<and> (f' > m' \<longrightarrow> llm_detect_gender db n' t' e' = ''Female'')
       \<and> (m' = f' \<longrightarrow> llm_detect_gender db n' t' e' = DEFAULT_NA)"
proof -
  have a: "detect_gender db t n g e =
             (if m = 0 \<and> f = 0 then DEFAULT_NA else if m \<ge> f then ''Male'' else ''Female'')"
    by (simp add: detect_gender_def assms(1))
  have b: "llm_detect_gender db n' t' e' =
             (if m' > f' then ''Male'' else if f' > m' then ''Female'' else DEFAULT_NA)"
    by (simp add: llm_detect_gender_def assms(2))
  show ?thesis
    unfolding a b by simp
qed

theorem gender_resolution_witness:
  "detect_gender no_names ''x'' DEFAULT_NA None DEFAULT_NA = DEFAULT_NA
   \<and> detect_gender no_names '' he '' DEFAULT_NA None DEFAULT_NA = ''Male''
   \<and> detect_gender no_names '' she '' DEFAULT_NA None DEFAULT_NA = ''Female''
   \<and> detect_gender no_names '' he she '' DEFAULT_NA None DEFAULT_NA = ''Male''
   \<and> llm_detect_gender no_names [] ''he'' [] = ''Male''
   \<and> llm_detect_gender no_names [] ''she'' [] = ''Female''
   \<and> llm_detect_gender no_names [] ''he she'' [] = DEFAULT_NA"
proof -
  have b0: "gender_scores no_names ''x'' DEFAULT_NA None DEFAULT_NA = (0, 0)"
    by code_simp
  have b1: "gender_scores no_names '' he '' DEFAULT_NA None DEFAULT_NA = (2, 0)"
    by code_simp
  have b2: "gender_scores no_names '' she '' DEFAULT_NA None DEFAULT_NA = (0, 2)"
    by code_simp
  have b3: "gender_scores no_names '' he she '' DEFAULT_NA None DEFAULT_NA = (2, 2)"
    by code_simp
  have l1: "llm_gender_scores no_names [] ''he'' [] = (3, 0)"
    by code_simp
  have l2: "llm_gender_scores no_names [] ''she'' [] = (0, 3)"
    by code_simp
  have l3: "llm_gender_scores no_names [] ''he she'' [] = (3, 3)"
    by code_simp
  show ?thesis
    using gender_resolution [OF b0 l1] gender_resolution [OF b1 l2]
          gender_resolution [OF b2 l3] gender_resolution [OF b3 l3]
    by simp
qed

theorem llm_gender_tie_counterexample:
  "llm_gender_scores no_names [] ''he she'' [] = (3, 3)
   \<and> llm_detect_gender no_names [] ''he she'' [] \<noteq> ''Male''"
  by code_simp


subsection \<open>Scan detection\<close>

lemma scan_pages_prefix:
  "Page_raises \<notin> set pre \<Longrightarrow> n + non_whitespace pre < m \<Longrightarrow>
   scan_pages m n (pre @ rest) =
     (case scan_pages m (n + non_whitespace pre) rest of (r, k) \<Rightarrow> (r, k + length pre))"
proof (induction pre arbitrary: n)
  case Nil
  then show ?case by (simp split: prod.split)
next
  case (Cons p pre)
  from Cons.prems have np: "p \<noteq> Page_raises" and nr: "Page_raises \<notin> set pre"
    by auto
  from Cons.prems have lt: "(n + page_chars p) + non_whitespace pre < m"
    by (simp add: page_chars_def)
  then have small: "\<not> m \<le> n + page_chars p" by simp
  have "scan_pages m n ((p # pre) @ rest) =
          (case scan_pages m (n + page_chars p) (pre @ rest) of (r, k) \<Rightarrow> (r, k + 1))"
    using np small by (simp add: Let_def)
  also have "scan_pages m (n + page_chars p) (pre @ rest) =
          (case scan_pages m ((n + page_chars p) + non_whitespace pre) rest
             of (r, k) \<Rightarrow> (r, k + length pre))"
    using Cons.IH [OF nr lt] .
  finally show ?case
    by (simp add: page_chars_def add.assoc split: prod.split)
qed

text \<open>
  C6. Over the pages the converter gives, the detector answers false at the first page
  where the running count of non-whitespace characters reaches 200, and reads no page
  after it; it answers true when all pages are read and the count stays below 200, when
  the document cannot be opened, and when reading a page fails before 200 is reached.
\<close>

theorem is_scanned_pdf_bytes_spec:
  "(Page_raises \<notin> set pre \<and> p \<noteq> Page_raises \<and> non_whitespace pre < 200
      \<and> 200 \<le> non_whitespace (pre @ [p]) \<longrightarrow>
        is_scanned_pdf_bytes (Some (pre @ p # rest)) MIN_CHARS = False
        \<and> pages_read (Some (pre @ p # rest)) MIN_CHARS = length pre + 1)
   \<and> (Page_raises \<notin> set ps \<and> non_whitespace ps < 200 \<longrightarrow>
        is_scanned_pdf_bytes (Some ps) MIN_CHARS = True
        \<and> pages_read (Some ps) MIN_CHARS = length ps)
   \<and> is_scanned_pdf_bytes None MIN_CHARS = True
   \<and> (Page_raises \<notin> set pre' \<and> non_whitespace pre' < 200 \<longrightarrow>
        is_scanned_pdf_bytes (Some (pre' @ Page_raises # rest')) MIN_CHARS = True)"
proof (intro conjI impI)
  assume h: "Page_raises \<notin> set pre \<and> p \<noteq> Page_raises \<and> non_whitespace pre < 200
      \<and> 200 \<le> non_whitespace (pre @ [p])"
  then have "scan_pages MIN_CHARS 0 (pre @ p # rest) =
      (case scan_pages MIN_CHARS (0 + non_whitespace pre) (p # rest)
         of (r, k) \<Rightarrow> (r, k + length pre))"
    by (intro scan_pages_prefix) (simp_all add: MIN_CHARS_def)
  moreover have "scan_pages MIN_CHARS (0 + non_whitespace pre) (p # rest) = (False, 1)"
    using h by (simp add: page_chars_def MIN_CHARS_def)
  ultimately have r: "scan_pages MIN_CHARS 0 (pre @ p # rest) = (False, length pre + 1)"
    by simp
  show "is_scanned_pdf_bytes (Some (pre @ p # rest)) MIN_CHARS = False"
    by (simp add: is_scanned_pdf_bytes_def r)
  show "pages_read (Some (pre @ p # rest)) MIN_CHARS = length pre + 1"
    by (simp add: pages_read_def r)
next
  assume h: "Page_raises \<notin> set ps \<and> non_whitespace ps < 200"
  then have "scan_pages MIN_CHARS 0 (ps @ []) =
      (case scan_pages MIN_CHARS (0 + non_whitespace ps) [] of (r, k) \<Rightarrow> (r, k + length ps))"
    by (intro scan_pages_prefix) (simp_all add: MIN_CHARS_def)
  then have r: "scan_pages MIN_CHARS 0 ps = (True, length ps)"
    by simp
  show "is_scanned_pdf_bytes (Some ps) MIN_CHARS = True"
    by (simp add: is_scanned_pdf_bytes_def r)
  show "pages_read (Some ps) MIN_CHARS = length ps"
    by (simp add: pages_read_def r)
next
  show "is_scanned_pdf_bytes None MIN_CHARS = True"
    by (simp add: is_scanned_pdf_bytes_def)
next
  assume h: "Page_raises \<notin> set pre' \<and> non_whitespace pre' < 200"
  then have "scan_pages MIN_CHARS 0 (pre' @ Page_raises # rest') =
      (case scan_pages MIN_CHARS (0 + non_whitespace pre') (Page_raises # rest')
         of (r, k) \<Rightarrow> (r, k + length pre'))"
    by (intro scan_pages_prefix) (simp_all add: MIN_CHARS_def)
  then show "is_scanned_pdf_bytes (Some (pre' @ Page_raises # rest')) MIN_CHARS = True"
    by (simp add: is_scanned_pdf_bytes_def)
qed

theorem is_scanned_pdf_bytes_spec_witness:
  "is_scanned_pdf_bytes (Some (sparse_pages @ Page_text (replicate 50 (CHR ''y''))
                                  # [Page_raises, Page_text ''never read'']))
       MIN_CHARS = False
   \<and> pages_read (Some (sparse_pages @ Page_text (replicate 50 (CHR ''y''))
                          # [Page_raises, Page_text ''never read'']))
       MIN_CHARS = 3
   \<and> is_scanned_pdf_bytes (Some sparse_pages) MIN_CHARS = True
   \<and> pages_read (Some sparse_pages) MIN_CHARS = 2
   \<and> is_scanned_pdf_bytes
       (Some (sparse_pages @ Page_raises # [Page_text (replicate 200 (CHR ''x''))]))
       MIN_CHARS = True"
proof -
  have n: "Page_raises \<notin> set sparse_pages"
    by (simp add: sparse_pages_def)
  have l: "length sparse_pages = 2"
    by (simp add: sparse_pages_def)
  have c1: "non_whitespace sparse_pages = 150"
    by code_simp
  have c2: "non_whitespace (sparse_pages @ [Page_text (replicate 50 (CHR ''y''))]) = 200"
    by code_simp
  show ?thesis
    using is_scanned_pdf_bytes_spec
            [of sparse_pages "Page_text (replicate 50 (CHR ''y''))"
                "[Page_raises, Page_text ''never read'']" sparse_pages
                sparse_pages "[Page_text (replicate 200 (CHR ''x''))]"]
          n l c1 c2
    by simp
qed

subsection \<open>Location resolution\<close>






subsection \<open>Reconciliation on the batch path and on the API path\<close>

lemma apply_overrides_other:
  "k \<notin> fst ` set kvs \<Longrightarrow> apply_overrides kvs d k = d k"
  by (induction kvs arbitrary: d) auto

lemma apply_overrides_lookup:
  "distinct (map fst kvs) \<Longrightarrow> (k, v) \<in> set kvs \<Longrightarrow> v \<noteq> DEFAULT_NA \<Longrightarrow>
   apply_overrides kvs d k = Some (PStr v)"
proof (induction kvs arbitrary: d)
  case Nil
  then show ?case by simp
next
  case (Cons kv kvs)
  obtain k' v' where kv: "kv = (k', v')" by (cases kv)
  show ?case
  proof (cases "(k, v) = kv")
    case True
    then have "k \<notin> fst ` set kvs" using Cons.prems(1) by force
    then show ?thesis
      using True [symmetric] Cons.prems(3) by (simp add: apply_overrides_other)
  next
    case False
    then have "(k, v) \<in> set kvs" using Cons.prems(2) by simp
    moreover have "distinct (map fst kvs)" using Cons.prems(1) by simp
    ultimately show ?thesis
      using Cons.IH Cons.prems(3) by (simp add: kv)
  qed
qed

lemma basic_regex_overrides_keys:
  "map fst (basic_regex_overrides t) =
     [''cv_email'', ''cv_mobile_number'', ''cv_pincode'', ''cv_summary'']"
  by (simp add: basic_regex_overrides_def Let_def)

lemma ensure_past_fields_other:
  "k \<notin> set keys \<Longrightarrow> ensure_past_fields keys d k = d k"
  by (induction keys arbitrary: d) (auto simp: Let_def split: pyval.splits)

lemma override_keys_columns:
  "k \<in> set [''cv_email'', ''cv_mobile_number'', ''cv_pincode'', ''cv_summary'']
   \<Longrightarrow> k \<in> set ALL_COLUMNS"
  by (auto simp: ALL_COLUMNS_def)

lemma file_metadata_keeps:
  "k \<in> set [''cv_email'', ''cv_mobile_number'', ''cv_pincode'', ''cv_summary'']
   \<Longrightarrow> file_metadata env code d k = d k"
  by (auto simp: file_metadata_def)

lemma identity_fields_keeps:
  "k \<in> set [''cv_email'', ''cv_mobile_number'', ''cv_pincode'', ''cv_summary'']
   \<Longrightarrow> identity_fields u d k = d k"
  by (auto simp: identity_fields_def Let_def)

lemma derived_fields_keeps:
  assumes "k \<in> set [''cv_email'', ''cv_mobile_number'', ''cv_pincode'', ''cv_summary'']"
  shows "derived_fields env u e d k = d k"
proof -
  have np: "k \<notin> set [''cv_pastcompanies'', ''cv_pastdesignations'', ''cv_pastduration'']"
    using assms by auto
  have ne: "k \<noteq> ''gender''" "k \<noteq> ''cv_age''" "k \<noteq> ''cv_cvscore''"
    using assms by auto
  show ?thesis
    unfolding derived_fields_def Let_def ensure_past_fields_other [OF np]
    using ne by simp
qed

lemma process_file_Inr:
  assumes "process_file env cols = Inr rec" and "strip (text_data env) \<noteq> []"
  shows "\<exists>code username email.
           rec = existing_columns cols
                   (derived_fields env username email
                      (identity_fields username
                         (file_metadata env code
                            ((apply_overrides (basic_regex_overrides (text_data env))
                                  (flatten_lists (model_fields env)))
                             (''cv_originalfilename'' \<mapsto> PStr (file_name env))))))"
  using assms
  by (auto simp: process_file_def Let_def split: sum.splits option.splits)

lemma process_file_keeps:
  assumes k: "k \<in> set [''cv_email'', ''cv_mobile_number'', ''cv_pincode'', ''cv_summary'']"
    and r: "process_file env cols = Inr rec"
    and nb: "strip (text_data env) \<noteq> []"
    and c: "k \<in> cols"
  shows "rec k = Some (get_or (apply_overrides (basic_regex_overrides (text_data env))
                                 (flatten_lists (model_fields env))) k NA)"
proof -
  have col: "k \<in> set ALL_COLUMNS" using k by (rule override_keys_columns)
  have ne: "k \<noteq> ''cv_originalfilename''" using k by auto
  from process_file_Inr [OF r nb] obtain code username email where
    rec: "rec = existing_columns cols
                   (derived_fields env username email
                      (identity_fields username
                         (file_metadata env code
                            ((apply_overrides (basic_regex_overrides (text_data env))
                                  (flatten_lists (model_fields env)))
                             (''cv_originalfilename'' \<mapsto> PStr (file_name env))))))"
    by blast
  show ?thesis
    unfolding rec existing_columns_def get_or_def
    using c col ne
    by (simp add: file_metadata_keeps [OF k] identity_fields_keeps [OF k]
                  derived_fields_keeps [OF k])
qed

lemma fill_from_llm_other:
  "t \<notin> snd ` set m \<Longrightarrow> fill_from_llm m info d t = d t"
  by (induction m arbitrary: d) (auto simp: Let_def)

lemma fill_from_llm_hit:
  "distinct (map snd m) \<Longrightarrow> (k, t) \<in> set m \<Longrightarrow>
   fill_from_llm m info d t =
     (if get_or info k PNone \<noteq> PNone \<and> get_or info k PNone \<noteq> PStr []
      then Some (get_or info k PNone) else d t)"
proof (induction m arbitrary: d)
  case Nil
  then show ?case by simp
next
  case (Cons kv m)
  obtain k' t' where kv: "kv = (k', t')" by (cases kv)
  show ?case
  proof (cases "(k, t) = kv")
    case True
    then have "t \<notin> snd ` set m" using Cons.prems(1) by force
    then show ?thesis
      using True [symmetric] by (simp add: fill_from_llm_other Let_def)
  next
    case False
    then have in_m: "(k, t) \<in> set m" using Cons.prems(2) by simp
    have d: "distinct (map snd m)" using Cons.prems(1) by simp
    have "t' \<noteq> t" using Cons.prems(1) in_m kv by force
    then show ?thesis
      using Cons.IH [OF d in_m] by (simp add: kv Let_def)
  qed
qed

lemma mapping_distinct: "distinct (map snd mapping)"
  by (simp add: mapping_def)

lemma upload_resume_mobile_number:
  "upload_resume up ''mobile_number'' =
     (if get_or (llm_info (llm up)) ''cv_mobile_number'' PNone \<noteq> PNone
         \<and> get_or (llm_info (llm up)) ''cv_mobile_number'' PNone \<noteq> PStr []
      then Some (get_or (llm_info (llm up)) ''cv_mobile_number'' PNone)
      else if phones up \<noteq> [] then Some (PStr (hd (phones up))) else None)"
proof -
  define F where "F = fill_from_llm mapping (llm_info (llm up)) Map.empty"
  have m: "(''cv_mobile_number'', ''mobile_number'') \<in> set mapping"
    by (simp add: mapping_def)
  have F: "F ''mobile_number'' =
     (if get_or (llm_info (llm up)) ''cv_mobile_number'' PNone \<noteq> PNone
         \<and> get_or (llm_info (llm up)) ''cv_mobile_number'' PNone \<noteq> PStr []
      then Some (get_or (llm_info (llm up)) ''cv_mobile_number'' PNone) else None)"
    unfolding F_def using fill_from_llm_hit [OF mapping_distinct m] by simp
  have "upload_resume up ''mobile_number'' =
          (if F ''mobile_number'' = None \<and> phones up \<noteq> []
           then Some (PStr (hd (phones up))) else F ''mobile_number'')"
    unfolding upload_resume_def Let_def F_def [symmetric]
    by (simp split: option.splits)
  then show ?thesis
    unfolding F by simp
qed

lemma upload_resume_username:
  "get_or (llm_info (llm up)) ''cv_username'' PNone \<noteq> PNone \<Longrightarrow>
   get_or (llm_info (llm up)) ''cv_username'' PNone \<noteq> PStr [] \<Longrightarrow>
   upload_resume up ''username'' = Some (get_or (llm_info (llm up)) ''cv_username'' PNone)"
proof -
  assume a: "get_or (llm_info (llm up)) ''cv_username'' PNone \<noteq> PNone"
    and b: "get_or (llm_info (llm up)) ''cv_username'' PNone \<noteq> PStr []"
  define F where "F = fill_from_llm mapping (llm_info (llm up)) Map.empty"
  have m: "(''cv_username'', ''username'') \<in> set mapping"
    by (simp add: mapping_def)
  have F: "F ''username'' = Some (get_or (llm_info (llm up)) ''cv_username'' PNone)"
    unfolding F_def using fill_from_llm_hit [OF mapping_distinct m] a b by simp
  show ?thesis
    unfolding upload_resume_def Let_def F_def [symmetric]
    using F by (simp split: option.splits)
qed

lemma strip_empty_iff: "strip s = [] \<longleftrightarrow> (\<forall>c \<in> set s. is_space c)"
proof
  assume "strip s = []"
  then have all: "\<forall>c \<in> set (dropWhile is_space s). is_space c"
    by (simp add: strip_def strip_chars_def dropWhile_eq_Nil_conv)
  have "dropWhile is_space s = []"
  proof (rule ccontr)
    assume ne: "dropWhile is_space s \<noteq> []"
    then have "\<not> is_space (hd (dropWhile is_space s))" by (rule hd_dropWhile)
    moreover have "hd (dropWhile is_space s) \<in> set (dropWhile is_space s)"
      using ne by simp
    ultimately show False using all by blast
  qed
  then show "\<forall>c \<in> set s. is_space c"
    by (simp add: dropWhile_eq_Nil_conv)
next
  assume "\<forall>c \<in> set s. is_space c"
  then have d: "dropWhile is_space s = []" by (simp add: dropWhile_eq_Nil_conv)
  show "strip s = []" unfolding strip_def strip_chars_def d by simp
qed

lemma findall_from_none:
  assumes "\<And>prev c cs. Q c \<Longrightarrow> m prev (c # cs) = None"
  shows "\<forall>c \<in> set s. Q c \<Longrightarrow> findall_from m prev s = []"
  by (induction s arbitrary: prev) (simp_all add: assms)

lemma space_not_local: "is_space c \<Longrightarrow> \<not> is_local_char c"
  by (auto simp: is_space_def is_local_char_def is_ascii_letter_def is_digit_def)

lemma space_not_digit: "is_space c \<Longrightarrow> \<not> is_digit c"
  by (auto simp: is_space_def is_digit_def)

lemma email_at_space: "is_space c \<Longrightarrow> email_at prev (c # cs) = None"
  by (simp add: email_at_def space_not_local)

lemma mobile_at_space: "is_space c \<Longrightarrow> mobile_at (c # cs) = None"
  by (auto simp: mobile_at_def is_space_def)

lemma phone_at_space: "is_space c \<Longrightarrow> phone_at prev (c # cs) = None"
proof -
  assume sp: "is_space c"
  then have "c \<noteq> CHR ''+''" by (auto simp: is_space_def)
  then have "\<not> starts_with ''+91'' (c # cs)" by (simp add: starts_with_def)
  then show ?thesis by (simp add: phone_at_def mobile_at_space [OF sp])
qed

lemma pincode_at_space: "is_space c \<Longrightarrow> pincode_at prev (c # cs) = None"
  by (auto simp: pincode_at_def is_space_def)

lemma splitlines_from_chars:
  "l \<in> set (splitlines_from acc s) \<Longrightarrow> set l \<subseteq> set acc \<union> set s"
proof (induction acc s arbitrary: l rule: splitlines_from.induct)
  case (1 acc)
  then show ?case by (auto split: if_splits)
next
  case (2 acc c cs)
  show ?case
  proof (cases "c = CR")
    case True
    show ?thesis
    proof (cases cs)
      case Nil
      with True "2.prems" show ?thesis by auto
    next
      case (Cons d ds)
      show ?thesis
      proof (cases "d = LF")
        case dl: True
        from "2.prems" True Cons dl have "l = rev acc \<or> l \<in> set (splitlines_from [] ds)"
          by simp
        then show ?thesis
          using "2.IH"(1) [OF True Cons dl] Cons by auto
      next
        case dl: False
        from "2.prems" True Cons dl have "l = rev acc \<or> l \<in> set (splitlines_from [] cs)"
          by simp
        then show ?thesis
          using "2.IH"(2) [OF True Cons dl] by auto
      qed
    qed
  next
    case False
    show ?thesis
    proof (cases "is_linebreak c")
      case lb: True
      from "2.prems" False lb have "l = rev acc \<or> l \<in> set (splitlines_from [] cs)"
        by simp
      then show ?thesis
        using "2.IH"(3) [OF False lb] by auto
    next
      case lb: False
      from "2.prems" False lb have "l \<in> set (splitlines_from (c # acc) cs)"
        by simp
      then show ?thesis
        using "2.IH"(4) [OF False lb] by auto
    qed
  qed
qed

lemma nonblank_lines_blank: "strip t = [] \<Longrightarrow> nonblank_lines t = []"
proof -
  assume "strip t = []"
  then have sp: "\<forall>c \<in> set t. is_space c" by (simp add: strip_empty_iff)
  have "\<forall>l \<in> set (splitlines t). strip l = []"
  proof
    fix l assume "l \<in> set (splitlines t)"
    then have "set l \<subseteq> set t"
      using splitlines_from_chars [of l "[]" t] by (simp add: splitlines_def)
    then show "strip l = []" using sp by (auto simp: strip_empty_iff)
  qed
  then show ?thesis
    by (simp add: nonblank_lines_def filter_empty_conv)
qed

lemma basic_regex_overrides_blank:
  assumes "strip t = []"
  shows "basic_regex_overrides t =
           [(''cv_email'', DEFAULT_NA), (''cv_mobile_number'', DEFAULT_NA),
            (''cv_pincode'', DEFAULT_NA), (''cv_summary'', DEFAULT_NA)]"
proof -
  from assms have sp: "\<forall>c \<in> set t. is_space c" by (simp add: strip_empty_iff)
  have e: "findall email_at t = []"
    unfolding findall_def using email_at_space sp by (rule findall_from_none)
  have p: "findall phone_at t = []"
    unfolding findall_def using phone_at_space sp by (rule findall_from_none)
  have c: "findall pincode_at t = []"
    unfolding findall_def using pincode_at_space sp by (rule findall_from_none)
  show ?thesis
    by (simp add: basic_regex_overrides_def e p c nonblank_lines_blank [OF assms])
qed

text \<open>
  C1 (as amended). On the batch path, when the regex extractor gives a value other than
  the sentinel for \<open>cv_email\<close>, \<open>cv_mobile_number\<close>, \<open>cv_pincode\<close> or
  \<open>cv_summary\<close>, the record that \<open>process_file\<close> returns holds that value under
  the key, whatever the model gave, if the key is a column of the table. On the API path
  the phone found in the text is a fallback only: \<open>mobile_number\<close> is the model's
  \<open>cv_mobile_number\<close> unless that is missing, \<open>None\<close> or empty.
\<close>

theorem regex_overrides_batch_fallback_api:
  "(process_file env cols = Inr rec \<and> (k, v) \<in> set (basic_regex_overrides (text_data env))
      \<and> v \<noteq> DEFAULT_NA \<and> k \<in> cols \<longrightarrow> rec k = Some (PStr v))
   \<and> upload_resume up ''mobile_number'' =
       (if get_or (llm_info (llm up)) ''cv_mobile_number'' PNone \<noteq> PNone
           \<and> get_or (llm_info (llm up)) ''cv_mobile_number'' PNone \<noteq> PStr []
        then Some (get_or (llm_info (llm up)) ''cv_mobile_number'' PNone)
        else if phones up \<noteq> [] then Some (PStr (hd (phones up))) else None)"
proof (intro conjI impI)
  assume h: "process_file env cols = Inr rec
      \<and> (k, v) \<in> set (basic_regex_overrides (text_data env)) \<and> v \<noteq> DEFAULT_NA \<and> k \<in> cols"
  have nb: "strip (text_data env) \<noteq> []"
  proof
    assume "strip (text_data env) = []"
    then have "basic_regex_overrides (text_data env) =
           [(''cv_email'', DEFAULT_NA), (''cv_mobile_number'', DEFAULT_NA),
            (''cv_pincode'', DEFAULT_NA), (''cv_summary'', DEFAULT_NA)]"
      by (rule basic_regex_overrides_blank)
    with h show False by auto
  qed
  have "k \<in> set (map fst (basic_regex_overrides (text_data env)))"
    using h by force
  then have k: "k \<in> set [''cv_email'', ''cv_mobile_number'', ''cv_pincode'', ''cv_summary'']"
    by (simp only: basic_regex_overrides_keys)
  have d: "distinct (map fst (basic_regex_overrides (text_data env)))"
    by (simp add: basic_regex_overrides_keys)
  have "apply_overrides (basic_regex_overrides (text_data env))
          (flatten_lists (model_fields env)) k = Some (PStr v)"
    using d h by (intro apply_overrides_lookup) simp_all
  then show "rec k = Some (PStr v)"
    using process_file_keeps [OF k _ nb, of cols rec] h by (simp add: get_or_def)
next
  show "upload_resume up ''mobile_number'' =
       (if get_or (llm_info (llm up)) ''cv_mobile_number'' PNone \<noteq> PNone
           \<and> get_or (llm_info (llm up)) ''cv_mobile_number'' PNone \<noteq> PStr []
        then Some (get_or (llm_info (llm up)) ''cv_mobile_number'' PNone)
        else if phones up \<noteq> [] then Some (PStr (hd (phones up))) else None)"
    by (rule upload_resume_mobile_number)
qed

theorem regex_overrides_batch_fallback_api_witness:
  "(case process_file override_env {''cv_email'', ''email''} of
      Inl e \<Rightarrow> False
    | Inr rec \<Rightarrow> rec ''cv_email'' = Some (PStr ''a@b.co''))
   \<and> upload_resume phone_upload ''mobile_number'' = Some (PStr ''9000000000'')"
proof -
  have ok: "case process_file override_env {''cv_email'', ''email''} of
              Inl e \<Rightarrow> False | Inr rec \<Rightarrow> True"
    by code_simp
  then obtain rec where r: "process_file override_env {''cv_email'', ''email''} = Inr rec"
    by (cases "process_file override_env {''cv_email'', ''email''}") simp_all
  have ov: "(''cv_email'', ''a@b.co'') \<in> set (basic_regex_overrides (text_data override_env))"
    by code_simp
  have ne: "''a@b.co'' \<noteq> DEFAULT_NA"
    by (simp add: DEFAULT_NA_def)
  have g: "get_or (llm_info (llm phone_upload)) ''cv_mobile_number'' PNone = PStr ''9000000000''"
    by code_simp
  show ?thesis
    using regex_overrides_batch_fallback_api
            [of override_env "{''cv_email'', ''email''}" rec "''cv_email''" "''a@b.co''"
                phone_upload]
          r ov ne g
    by simp
qed

theorem api_phone_counterexample:
  "get_or (llm_info (llm phone_upload)) ''cv_mobile_number'' PNone = PStr ''9000000000''
   \<and> phones phone_upload = [''+919876543210'']
   \<and> upload_resume phone_upload ''mobile_number'' \<noteq> Some (PStr ''+919876543210'')"
  by code_simp

text \<open>
  C4, on the batch path. The file's text is the address \<open>r.asha@x.com\<close> and the model
  gives the name \<open>Asha Rao\<close> and nothing else. \<open>process_file\<close> returns a record
  whose \<open>username\<close> is the local part of the address, while \<open>cv_username\<close> still
  holds the model's name.
\<close>

theorem process_file_username_from_email:
  "(case process_file asha_env {''username'', ''cv_username''} of
      Inl e \<Rightarrow> None
    | Inr rec \<Rightarrow> Some (rec ''username'', rec ''cv_username''))
   = Some (Some (PStr ''r.asha''), Some (PStr ''Asha Rao''))"
  by code_simp



subsection \<open>E-mail extraction\<close>






















subsection \<open>Text normalisation\<close>

lemma contains_iff: "contains sub s \<longleftrightarrow> (\<exists>a b. s = a @ sub @ b)"
proof (induction s)
  case Nil
  show ?case by simp
next
  case (Cons c cs)
  have sw: "starts_with sub (c # cs) \<longleftrightarrow> (\<exists>b. c # cs = sub @ b)"
    unfolding starts_with_def by (metis append_eq_conv_conj append_take_drop_id)
  have "(\<exists>a b. c # cs = a @ sub @ b)
          \<longleftrightarrow> (\<exists>b. c # cs = sub @ b) \<or> (\<exists>a b. cs = a @ sub @ b)"
  proof
    assume "\<exists>a b. c # cs = a @ sub @ b"
    then obtain a b where e: "c # cs = a @ sub @ b" by blast
    show "(\<exists>b. c # cs = sub @ b) \<or> (\<exists>a b. cs = a @ sub @ b)"
    proof (cases a)
      case Nil
      then show ?thesis using e by auto
    next
      case (Cons x a')
      then have "cs = a' @ sub @ b" using e by simp
      then show ?thesis by blast
    qed
  next
    assume "(\<exists>b. c # cs = sub @ b) \<or> (\<exists>a b. cs = a @ sub @ b)"
    then show "\<exists>a b. c # cs = a @ sub @ b"
    proof
      assume "\<exists>b. c # cs = sub @ b"
      then obtain b where "c # cs = [] @ sub @ b" by auto
      then show ?thesis by blast
    next
      assume "\<exists>a b. cs = a @ sub @ b"
      then obtain a b where "c # cs = (c # a) @ sub @ b" by auto
      then show ?thesis by blast
    qed
  qed
  then show ?case using Cons.IH sw by simp
qed

lemma contains_infix: "contains sub m \<Longrightarrow> contains sub (a @ m @ b)"
proof -
  assume "contains sub m"
  then obtain p q where "m = p @ sub @ q" unfolding contains_iff by blast
  then have "a @ m @ b = (a @ p) @ sub @ (q @ b)" by simp
  then show ?thesis unfolding contains_iff by blast
qed

lemma strip_chars_infix: "\<exists>a b. s = a @ strip_chars P s @ b"
proof -
  define d where "d = dropWhile P s"
  have 1: "s = takeWhile P s @ d" by (simp add: d_def)
  have 2: "d = rev (dropWhile P (rev d)) @ rev (takeWhile P (rev d))"
    by (metis rev_append rev_rev_ident takeWhile_dropWhile_id)
  have "s = takeWhile P s @ strip_chars P s @ rev (takeWhile P (rev d))"
    unfolding strip_chars_def d_def [symmetric] using 1 2 by simp
  then show ?thesis by blast
qed

lemma contains_strip: "contains sub (strip s) \<Longrightarrow> contains sub s"
proof -
  assume c: "contains sub (strip s)"
  obtain a b where e: "s = a @ strip s @ b"
    unfolding strip_def using strip_chars_infix by blast
  show ?thesis using contains_infix [OF c, of a b] e by simp
qed

lemma set_strip: "set (strip s) \<subseteq> set s"
proof -
  obtain a b where e: "s = a @ strip s @ b"
    unfolding strip_def using strip_chars_infix by blast
  have "set (strip s) \<subseteq> set (a @ strip s @ b)" by auto
  then show ?thesis using e by simp
qed

lemma strip_chars_ends:
  "strip_chars P s = [] \<or> (\<not> P (hd (strip_chars P s)) \<and> \<not> P (last (strip_chars P s)))"
proof (cases "strip_chars P s = []")
  case True
  then show ?thesis by simp
next
  case False
  define d where "d = dropWhile P s"
  define e where "e = dropWhile P (rev d)"
  have s: "strip_chars P s = rev e" by (simp add: strip_chars_def d_def e_def)
  from False have ene: "e \<noteq> []" using s by simp
  then have dne: "d \<noteq> []" by (auto simp: e_def)
  have l: "\<not> P (hd e)" using ene unfolding e_def by (rule hd_dropWhile)
  have h: "\<not> P (hd d)" using dne unfolding d_def by (rule hd_dropWhile)
  have la: "last (rev e) = hd e" using ene by (simp add: last_rev)
  obtain k where k: "rev d = k @ e" 
    unfolding e_def by (metis takeWhile_dropWhile_id)
  then have "d = rev e @ rev k" by (metis rev_append rev_rev_ident)
  then have "hd d = hd (rev e)" using ene by simp
  then show ?thesis using s l h la by simp
qed



lemma contains3_Cons:
  "contains [x, y, z] (c # cs)
     \<longleftrightarrow> (c = x \<and> (\<exists>r. cs = y # z # r)) \<or> contains [x, y, z] cs"
proof (cases cs)
  case Nil
  then show ?thesis by (simp add: starts_with_def)
next
  case (Cons a r)
  then show ?thesis by (cases r) (auto simp: starts_with_def)
qed

lemma contains2_Cons:
  "contains [x, y] (c # cs) \<longleftrightarrow> (c = x \<and> (\<exists>r. cs = y # r)) \<or> contains [x, y] cs"
  by (cases cs) (auto simp: starts_with_def)


lemma squeeze_newlines_hd:
  "s = [] \<or> hd s \<noteq> LF \<Longrightarrow> squeeze_newlines s = [] \<or> hd (squeeze_newlines s) \<noteq> LF"
  by (cases s) auto

lemma no_triple_run:
  assumes "r = [] \<or> hd r \<noteq> LF" and "\<not> contains [LF, LF, LF] r" and "k \<le> 2"
  shows "\<not> contains [LF, LF, LF] (replicate k LF @ r)"
proof -
  have t: "\<not> (\<exists>q. r = LF # LF # q)" using assms(1) by auto
  have t1: "\<not> (\<exists>q. r = LF # q)" using assms(1) by auto
  have 0: "\<not> contains [LF, LF, LF] r" by (rule assms(2))
  have 1: "\<not> contains [LF, LF, LF] (LF # r)"
    using 0 t by (simp add: contains3_Cons del: contains.simps)
  have 2: "\<not> contains [LF, LF, LF] (LF # LF # r)"
    using 1 t1 by (simp add: contains3_Cons [of _ _ _ _ "LF # r"] del: contains.simps)
  from assms(3) have "k = 0 \<or> k = 1 \<or> k = 2" by arith
  then show ?thesis using 0 1 2 by (auto simp: numeral_2_eq_2)
qed

lemma squeeze_newlines_no_triple: "\<not> contains [LF, LF, LF] (squeeze_newlines s)"
proof (induction s rule: squeeze_newlines.induct)
  case 1
  show ?case by simp
next
  case (2 c cs)
  show ?case
  proof (cases "c = LF")
    case True
    define r where "r = squeeze_newlines (dropWhile (\<lambda>x. x = LF) cs)"
    define n where "n = length (takeWhile (\<lambda>x. x = LF) cs)"
    have ih: "\<not> contains [LF, LF, LF] r" unfolding r_def using "2.IH"(1) [OF True refl] .
    have "dropWhile (\<lambda>x. x = LF) cs = [] \<or> hd (dropWhile (\<lambda>x. x = LF) cs) \<noteq> LF"
      using hd_dropWhile [of "\<lambda>x. x = LF" cs] by blast
    then have h: "r = [] \<or> hd r \<noteq> LF" unfolding r_def by (rule squeeze_newlines_hd)
    have e: "squeeze_newlines (c # cs) = (if 2 \<le> n then [LF, LF] else replicate (Suc n) LF) @ r"
      using True by (simp add: r_def n_def Let_def)
    show ?thesis
    proof (cases "2 \<le> n")
      case True
      have "\<not> contains [LF, LF, LF] (replicate 2 LF @ r)"
        using h ih by (rule no_triple_run) simp
      then show ?thesis unfolding e using True by (simp add: numeral_2_eq_2 del: contains.simps)
    next
      case False
      then have "Suc n \<le> 2" by simp
      with h ih have "\<not> contains [LF, LF, LF] (replicate (Suc n) LF @ r)"
        by (rule no_triple_run)
      then show ?thesis unfolding e using False by (simp del: contains.simps replicate.simps)
    qed
  next
    case False
    then have e: "squeeze_newlines (c # cs) = c # squeeze_newlines cs" by simp
    show ?thesis unfolding e
      using "2.IH"(2) [OF False] False by (simp add: contains3_Cons del: contains.simps)
  qed
qed

lemma splitlines_from_piece:
  "l \<in> set (splitlines_from acc s) \<Longrightarrow>
   (\<exists>a b. rev acc @ s = a @ l @ b) \<and> (\<forall>x \<in> set l. x \<in> set acc \<or> \<not> is_linebreak x)"
proof (induction acc s arbitrary: l rule: splitlines_from.induct)
  case (1 acc)
  then have l: "l = rev acc" by (auto split: if_splits)
  then have "rev acc @ [] = [] @ l @ []" by simp
  then have "\<exists>a b. rev acc @ [] = a @ l @ b" by blast
  then show ?case using l by auto
next
  case (2 acc c cs)
  have here: ?case if "l = rev acc"
  proof -
    have "rev acc @ c # cs = [] @ l @ (c # cs)" using that by simp
    then have "\<exists>a b. rev acc @ c # cs = a @ l @ b" by blast
    then show ?thesis using that by auto
  qed
  have later: ?case
    if "(\<exists>a b. r = a @ l @ b) \<and> (\<forall>x \<in> set l. x \<in> set [] \<or> \<not> is_linebreak x)"
      and "\<exists>p. c # cs = p @ r" for r
  proof -
    from that obtain a b p where "r = a @ l @ b" and "c # cs = p @ r" by blast
    then have "rev acc @ c # cs = (rev acc @ p @ a) @ l @ b" by simp
    then have "\<exists>a b. rev acc @ c # cs = a @ l @ b" by blast
    then show ?thesis using that(1) by auto
  qed
  show ?case
  proof (cases "c = CR")
    case True
    show ?thesis
    proof (cases cs)
      case Nil
      with True "2.prems" have "l = rev acc" by auto
      then show ?thesis by (rule here)
    next
      case (Cons d ds)
      show ?thesis
      proof (cases "d = LF")
        case dl: True
        from "2.prems" True Cons dl have "l = rev acc \<or> l \<in> set (splitlines_from [] ds)"
          by simp
        then show ?thesis
        proof
          assume "l = rev acc"
          then show ?thesis by (rule here)
        next
          assume "l \<in> set (splitlines_from [] ds)"
          then have "(\<exists>a b. ds = a @ l @ b) \<and> (\<forall>x \<in> set l. x \<in> set [] \<or> \<not> is_linebreak x)"
            using "2.IH"(1) [OF True Cons dl] by simp
          moreover have "\<exists>p. c # cs = p @ ds" using Cons by simp
          ultimately show ?thesis by (rule later)
        qed
      next
        case dl: False
        from "2.prems" True Cons dl have "l = rev acc \<or> l \<in> set (splitlines_from [] cs)"
          by simp
        then show ?thesis
        proof
          assume "l = rev acc"
          then show ?thesis by (rule here)
        next
          assume "l \<in> set (splitlines_from [] cs)"
          then have "(\<exists>a b. cs = a @ l @ b) \<and> (\<forall>x \<in> set l. x \<in> set [] \<or> \<not> is_linebreak x)"
            using "2.IH"(2) [OF True Cons dl] by simp
          moreover have "\<exists>p. c # cs = p @ cs" by simp
          ultimately show ?thesis by (rule later)
        qed
      qed
    qed
  next
    case False
    show ?thesis
    proof (cases "is_linebreak c")
      case lb: True
      from "2.prems" False lb have "l = rev acc \<or> l \<in> set (splitlines_from [] cs)"
        by simp
      then show ?thesis
      proof
        assume "l = rev acc"
        then show ?thesis by (rule here)
      next
        assume "l \<in> set (splitlines_from [] cs)"
        then have "(\<exists>a b. cs = a @ l @ b) \<and> (\<forall>x \<in> set l. x \<in> set [] \<or> \<not> is_linebreak x)"
          using "2.IH"(3) [OF False lb] by simp
        moreover have "\<exists>p. c # cs = p @ cs" by simp
        ultimately show ?thesis by (rule later)
      qed
    next
      case lb: False
      from "2.prems" False lb have "l \<in> set (splitlines_from (c # acc) cs)"
        by simp
      then have ih: "(\<exists>a b. rev (c # acc) @ cs = a @ l @ b)
                     \<and> (\<forall>x \<in> set l. x \<in> set (c # acc) \<or> \<not> is_linebreak x)"
        using "2.IH"(4) [OF False lb] by simp
      then have "\<exists>a b. rev acc @ c # cs = a @ l @ b" by simp
      moreover have "\<forall>x \<in> set l. x \<in> set acc \<or> \<not> is_linebreak x"
        using ih lb by auto
      ultimately show ?thesis by simp
    qed
  qed
qed

lemma nonblank_line:
  assumes "l \<in> set (nonblank_lines t)"
  shows "l \<noteq> [] \<and> (\<forall>x \<in> set l. \<not> is_linebreak x) \<and> (\<exists>a b. t = a @ l @ b)"
proof -
  from assms obtain p where p: "p \<in> set (splitlines t)" and l: "l = strip p" and ne: "l \<noteq> []"
    by (auto simp: nonblank_lines_def)
  from p have pc: "(\<exists>a b. t = a @ p @ b) \<and> (\<forall>x \<in> set p. \<not> is_linebreak x)"
    using splitlines_from_piece [of p "[]" t] by (simp add: splitlines_def)
  then obtain a b where t: "t = a @ p @ b" by blast
  obtain a' b' where "p = a' @ l @ b'"
    unfolding l strip_def using strip_chars_infix by blast
  then have "t = (a @ a') @ l @ (b' @ b)" using t by simp
  then have "\<exists>a b. t = a @ l @ b" by blast
  moreover have "\<forall>x \<in> set l. \<not> is_linebreak x"
    using pc set_strip [of p] l by blast
  ultimately show ?thesis using ne by simp
qed

lemma LF_linebreak: "is_linebreak LF"
  by (simp add: is_linebreak_def LF_def)

lemma CR_linebreak: "is_linebreak CR"
  by (simp add: is_linebreak_def CR_def)

lemma contains_set: "contains sub s \<Longrightarrow> set sub \<subseteq> set s"
  unfolding contains_iff by auto

lemma no_double_append:
  assumes "LF \<notin> set x" and "r \<noteq> []" and "hd r \<noteq> LF" and "\<not> contains [LF, LF] r"
  shows "\<not> contains [LF, LF] (x @ LF # r)"
  using assms(1)
proof (induction x)
  case Nil
  have "\<not> (\<exists>q. r = LF # q)" using assms(2,3) by auto
  then show ?case using assms(4) by (simp add: contains2_Cons del: contains.simps)
next
  case (Cons c x)
  then show ?case by (auto simp: contains2_Cons simp del: contains.simps)
qed

lemma join_lines_no_double:
  assumes "\<forall>l \<in> set ls. l \<noteq> [] \<and> LF \<notin> set l"
  shows "\<not> contains [LF, LF] (join [LF] ls)
         \<and> (ls \<noteq> [] \<longrightarrow> join [LF] ls \<noteq> [] \<and> hd (join [LF] ls) \<noteq> LF)"
  using assms
proof (induction ls)
  case Nil
  show ?case by (simp add: starts_with_def)
next
  case (Cons x ls)
  have x: "x \<noteq> []" "LF \<notin> set x" using Cons.prems by auto
  then have hx: "hd x \<noteq> LF" by (cases x) auto
  show ?case
  proof (cases ls)
    case Nil
    have "\<not> contains [LF, LF] x" using contains_set [of "[LF, LF]" x] x(2) by auto
    then show ?thesis using Nil x hx by simp
  next
    case (Cons y ys)
    define r where "r = join [LF] ls"
    have ih: "\<not> contains [LF, LF] r" "r \<noteq> []" "hd r \<noteq> LF"
      using Cons.IH Cons.prems Cons by (auto simp: r_def)
    have e: "join [LF] (x # ls) = x @ LF # r" using Cons by (simp add: r_def)
    have "\<not> contains [LF, LF] (x @ LF # r)"
      using x(2) ih(2) ih(3) ih(1) by (rule no_double_append)
    then show ?thesis unfolding e using x hx by simp
  qed
qed

lemma triple_double: "contains [LF, LF, LF] s \<Longrightarrow> contains [LF, LF] s"
proof -
  assume "contains [LF, LF, LF] s"
  then obtain a b where "s = a @ [LF, LF, LF] @ b" unfolding contains_iff by blast
  then have "s = a @ [LF, LF] @ (LF # b)" by simp
  then show ?thesis unfolding contains_iff by blast
qed

lemma set_join: "set (join sep ls) \<subseteq> set sep \<union> \<Union> (set ` set ls)"
  by (induction sep ls rule: join.induct) auto

lemma normalize_text_cases:
  assumes "x \<noteq> []"
  shows "(length (nonblank_lines (substitutions nfkc x)) \<le> 6
            \<and> normalize_text nfkc x = strip (substitutions nfkc x))
         \<or> (6 < length (nonblank_lines (substitutions nfkc x))
            \<and> (\<exists>ls. ls \<noteq> [] \<and> set ls \<subseteq> set (nonblank_lines (substitutions nfkc x))
                   \<and> normalize_text nfkc x = strip (join [LF] ls)))"
proof (cases "6 < length (nonblank_lines (substitutions nfkc x))")
  case False
  then show ?thesis using assms by (simp add: normalize_text_def Let_def)
next
  case True
  define lines where "lines = nonblank_lines (substitutions nfkc x)"
  define filtered where
    "filtered = filter (\<lambda>ln. ln \<notin> set (take 2 lines) \<and> ln \<notin> set (last_n 2 lines)) lines"
  have n: "normalize_text nfkc x
             = strip (if filtered \<noteq> [] then join [LF] filtered else join [LF] lines)"
    using assms True by (simp add: normalize_text_def Let_def lines_def filtered_def)
  have l: "lines \<noteq> []" using True by (auto simp: lines_def)
  have f: "set filtered \<subseteq> set lines" by (auto simp: filtered_def)
  have "\<exists>ls. ls \<noteq> [] \<and> set ls \<subseteq> set lines \<and> normalize_text nfkc x = strip (join [LF] ls)"
  proof (cases "filtered \<noteq> []")
    case True
    then show ?thesis using n f by auto
  next
    case False
    then show ?thesis using n l by auto
  qed
  then show ?thesis using True unfolding lines_def by blast
qed

lemma rebuilt_text:
  assumes "set ls \<subseteq> set (nonblank_lines t)"
  shows "\<not> contains [LF, LF] (join [LF] ls) \<and> CR \<notin> set (join [LF] ls)"
proof -
  have p: "\<forall>l \<in> set ls. l \<noteq> [] \<and> (\<forall>x \<in> set l. \<not> is_linebreak x)"
    using assms nonblank_line [of _ t] by blast
  then have "\<forall>l \<in> set ls. l \<noteq> [] \<and> LF \<notin> set l" using LF_linebreak by blast
  then have a: "\<not> contains [LF, LF] (join [LF] ls)" using join_lines_no_double by blast
  have "\<forall>l \<in> set ls. CR \<notin> set l" using p CR_linebreak by blast
  moreover have "CR \<noteq> LF" by (simp add: CR_def LF_def)
  ultimately have "CR \<notin> set (join [LF] ls)" using set_join [of "[LF]" ls] by auto
  then show ?thesis using a by simp
qed

lemma normalize_text_stripped: "\<exists>u. normalize_text nfkc x = strip u"
proof (cases "x = []")
  case True
  have "strip [] = []" by (simp add: strip_def strip_chars_def)
  then have "normalize_text nfkc x = strip []" using True by (simp add: normalize_text_def)
  then show ?thesis by blast
next
  case False
  then show ?thesis using normalize_text_cases [of x nfkc] by blast
qed

lemma normalize_text_ends:
  "normalize_text nfkc x = []
     \<or> (\<not> is_space (hd (normalize_text nfkc x)) \<and> \<not> is_space (last (normalize_text nfkc x)))"
proof -
  obtain u where "normalize_text nfkc x = strip u"
    using normalize_text_stripped by blast
  then show ?thesis unfolding strip_def using strip_chars_ends [of is_space u] by simp
qed

lemma normalize_text_no_triple: "\<not> contains [LF, LF, LF] (normalize_text nfkc x)"
proof (cases "x = []")
  case True
  then show ?thesis by (simp add: normalize_text_def)
next
  case False
  from normalize_text_cases [OF False, of nfkc]
  show ?thesis
  proof
    assume a: "length (nonblank_lines (substitutions nfkc x)) \<le> 6
                 \<and> normalize_text nfkc x = strip (substitutions nfkc x)"
    have "\<not> contains [LF, LF, LF] (substitutions nfkc x)"
      unfolding substitutions_def by (rule squeeze_newlines_no_triple)
    then show ?thesis using a contains_strip by auto
  next
    assume "6 < length (nonblank_lines (substitutions nfkc x))
            \<and> (\<exists>ls. ls \<noteq> [] \<and> set ls \<subseteq> set (nonblank_lines (substitutions nfkc x))
                   \<and> normalize_text nfkc x = strip (join [LF] ls))"
    then obtain ls where ls: "set ls \<subseteq> set (nonblank_lines (substitutions nfkc x))"
      and n: "normalize_text nfkc x = strip (join [LF] ls)" by blast
    have "\<not> contains [LF, LF] (join [LF] ls)"
      using rebuilt_text [OF ls] by simp
    then show ?thesis
      unfolding n using contains_strip triple_double by blast
  qed
qed

lemma normalize_text_rebuilt_no_cr:
  assumes "6 < length (nonblank_lines (substitutions nfkc x))"
  shows "CR \<notin> set (normalize_text nfkc x)"
proof (cases "x = []")
  case True
  then show ?thesis by (simp add: normalize_text_def)
next
  case False
  from normalize_text_cases [OF False, of nfkc] assms
  obtain ls where ls: "set ls \<subseteq> set (nonblank_lines (substitutions nfkc x))"
    and n: "normalize_text nfkc x = strip (join [LF] ls)" by auto
  have "CR \<notin> set (join [LF] ls)"
    using rebuilt_text [OF ls] by simp
  then show ?thesis unfolding n using set_strip by blast
qed

text \<open>
  C10 (as amended). For every input the normalised text has no whitespace at either end
  and never holds three line feeds in a row; when the text is rebuilt from its lines
  (more than six non-blank lines after the substitutions) it holds no carriage return.
  Otherwise a carriage return that is not followed by a line feed is kept.
\<close>

theorem normalize_text_invariant:
  "(normalize_text nfkc x = []
      \<or> (\<not> is_space (hd (normalize_text nfkc x)) \<and> \<not> is_space (last (normalize_text nfkc x))))
   \<and> \<not> contains [LF, LF, LF] (normalize_text nfkc x)
   \<and> (6 < length (nonblank_lines (substitutions nfkc x)) \<longrightarrow> CR \<notin> set (normalize_text nfkc x))"
  using normalize_text_ends [of nfkc x] normalize_text_no_triple [of nfkc x]
    normalize_text_rebuilt_no_cr [of nfkc x]
  by blast

theorem normalize_text_invariant_witness:
  "6 < length (nonblank_lines (substitutions id
         [CHR ''1'', LF, CHR ''2'', LF, CHR ''3'', CR, CHR ''4'', LF, CHR ''5'', LF, CHR ''6'',
          LF, CHR ''7'', LF, CHR ''8'', LF, CHR ''9'', CHR '' '']))
   \<and> normalize_text id
         [CHR ''1'', LF, CHR ''2'', LF, CHR ''3'', CR, CHR ''4'', LF, CHR ''5'', LF, CHR ''6'',
          LF, CHR ''7'', LF, CHR ''8'', LF, CHR ''9'', CHR '' '']
       = [CHR ''3'', LF, CHR ''4'', LF, CHR ''5'', LF, CHR ''6'', LF, CHR ''7'']
   \<and> \<not> is_space (CHR ''3'') \<and> \<not> is_space (CHR ''7'')
   \<and> \<not> contains [LF, LF, LF]
         [CHR ''3'', LF, CHR ''4'', LF, CHR ''5'', LF, CHR ''6'', LF, CHR ''7'']
   \<and> CR \<notin> set [CHR ''3'', LF, CHR ''4'', LF, CHR ''5'', LF, CHR ''6'', LF, CHR ''7'']"
proof -
  define X where "X = [CHR ''1'', LF, CHR ''2'', LF, CHR ''3'', CR, CHR ''4'', LF, CHR ''5'', LF,
    CHR ''6'', LF, CHR ''7'', LF, CHR ''8'', LF, CHR ''9'', CHR '' '']"
  define Y where "Y = [CHR ''3'', LF, CHR ''4'', LF, CHR ''5'', LF, CHR ''6'', LF, CHR ''7'']"
  have s: "6 < length (nonblank_lines (substitutions id X))"
    unfolding X_def by code_simp
  have n: "normalize_text id X = Y"
    unfolding X_def Y_def by code_simp
  have h: "hd Y = CHR ''3''" "last Y = CHR ''7''" "Y \<noteq> []"
    by (simp_all add: Y_def)
  from normalize_text_invariant [of id X]
  have "\<not> is_space (CHR ''3'') \<and> \<not> is_space (CHR ''7'')
        \<and> \<not> contains [LF, LF, LF] Y \<and> CR \<notin> set Y"
    unfolding n using s h by simp
  then show ?thesis using s n unfolding X_def Y_def by simp
qed

theorem normalize_text_carriage_return_counterexample:
  "normalize_text id [CHR ''a'', LF, LF, CR, CR, LF, LF, CHR ''b'']
     = [CHR ''a'', LF, LF, CR, LF, LF, CHR ''b'']
   \<and> CR \<in> set (normalize_text id [CHR ''a'', LF, LF, CR, CR, LF, LF, CHR ''b''])
   \<and> splitlines (normalize_text id [CHR ''a'', LF, LF, CR, CR, LF, LF, CHR ''b''])
     = [''a'', [], [], [], ''b'']"
  by code_simp

subsection \<open>Fixed points of the normaliser\<close>


























end
